theory Spec2Isabelle
  imports Complex_Main "HOL-Library.Word"
begin

unbundle bit_operations_syntax

section \<open>Machine integers and bytes\<close>

type_synonym u8 = "8 word"
type_synonym u32 = "32 word"
type_synonym u64 = "64 word"

section \<open>Telemetry: per-thread ring buffers of (hash count, timestamp) samples\<close>

text \<open>
  The class keeps, per worker thread, two parallel arrays of \<open>iBucketSize\<close> 64-bit slots
  and a 32-bit write cursor. \<open>iBucketSize\<close> and \<open>iBucketMask\<close> are constants of the
  class declaration (minethd.h); the functions below take them as parameters.
\<close>

record telemetry =
  ppHashCounts :: "u64 list list"
  ppTimestamps :: "u64 list list"
  iBucketTop :: "u32 list"

text \<open>
  \<open>new uint64_t[n]\<close> does not initialise the array: its content is whatever the heap
  holds. The content of the fresh array of thread \<open>i\<close> is given by a function of the
  slot number.
\<close>

definition new_u64_array :: "(nat \<Rightarrow> u64) \<Rightarrow> nat \<Rightarrow> u64 list" where
  "new_u64_array junk n = map junk [0..<n]"

definition memset0 :: "u64 list list \<Rightarrow> nat \<Rightarrow> nat \<Rightarrow> u64 list list" where
  "memset0 pp k n = pp[k := replicate n 0 @ drop n (pp ! k)]"

text \<open>One round of the constructor's loop, for thread \<open>i\<close> (lines 75 to 79).\<close>

definition telemetry_ctor_body ::
  "nat \<Rightarrow> (nat \<Rightarrow> nat \<Rightarrow> u64) \<Rightarrow> (nat \<Rightarrow> nat \<Rightarrow> u64) \<Rightarrow> nat \<Rightarrow> telemetry \<Rightarrow> telemetry" where
  "telemetry_ctor_body iBucketSize junkH junkT i t =
     (let t1 = t\<lparr>ppHashCounts := (ppHashCounts t)[i := new_u64_array (junkH i) iBucketSize]\<rparr>;
          t2 = t1\<lparr>ppTimestamps := (ppTimestamps t1)[i := new_u64_array (junkT i) iBucketSize]\<rparr>;
          t3 = t2\<lparr>iBucketTop := (iBucketTop t2)[i := 0]\<rparr>;
          t4 = t3\<lparr>ppHashCounts := memset0 (ppHashCounts t3) 0 iBucketSize\<rparr>;
          t5 = t4\<lparr>ppTimestamps := memset0 (ppTimestamps t4) 0 iBucketSize\<rparr>
      in t5)"

text \<open>
  The constructor \<open>telemetry::telemetry(iThd)\<close>. The three pointer arrays are fresh; the
  rows do not exist before the loop creates them.
\<close>

definition telemetry_ctor ::
  "nat \<Rightarrow> (nat \<Rightarrow> nat \<Rightarrow> u64) \<Rightarrow> (nat \<Rightarrow> nat \<Rightarrow> u64) \<Rightarrow> (nat \<Rightarrow> u32) \<Rightarrow> nat \<Rightarrow> telemetry" where
  "telemetry_ctor iBucketSize junkH junkT junkTop iThd =
     fold (telemetry_ctor_body iBucketSize junkH junkT) [0..<iThd]
       \<lparr>ppHashCounts = replicate iThd [], ppTimestamps = replicate iThd [],
        iBucketTop = map junkTop [0..<iThd]\<rparr>"

text \<open>\<open>telemetry::push_perf_value\<close>.\<close>

definition push_perf_value :: "u64 \<Rightarrow> telemetry \<Rightarrow> nat \<Rightarrow> u64 \<Rightarrow> u64 \<Rightarrow> telemetry" where
  "push_perf_value iBucketMask t iThd iHashCount iTimestamp =
     (let iTop = unat (iBucketTop t ! iThd)
      in t\<lparr>ppHashCounts := (ppHashCounts t)[iThd := (ppHashCounts t ! iThd)[iTop := iHashCount]],
           ppTimestamps := (ppTimestamps t)[iThd := (ppTimestamps t ! iThd)[iTop := iTimestamp]],
           iBucketTop := (iBucketTop t)[iThd := ucast ((of_nat iTop + 1) AND iBucketMask)]\<rparr>)"

text \<open>The local variables of \<open>calc_telemetry_data\<close> that the loop updates.\<close>

record walk =
  iEarliestHashCnt :: u64
  iEarliestStamp :: u64
  iLastestStamp :: u64
  iLastestHashCnt :: u64
  bHaveFullSet :: bool

definition walk_init :: walk where
  "walk_init = \<lparr>iEarliestHashCnt = 0, iEarliestStamp = 0, iLastestStamp = 0,
                iLastestHashCnt = 0, bHaveFullSet = False\<rparr>"

text \<open>
  The slot read in round \<open>i\<close>: the 32-bit cursor is widened to \<open>size_t\<close> (64 bits), the
  subtraction wraps, and the mask brings it back into the buffer.
\<close>

definition slot_idx :: "u64 \<Rightarrow> u32 \<Rightarrow> nat \<Rightarrow> nat" where
  "slot_idx iBucketMask iTop i = unat ((ucast iTop - of_nat i) AND iBucketMask)"

text \<open>
  The \<open>for\<close> loop of lines 95 to 116 over the remaining values of \<open>i\<close>; both
  \<open>break\<close>s end the recursion.
\<close>

fun calc_walk :: "u64 \<Rightarrow> u64 list \<Rightarrow> u64 list \<Rightarrow> u32 \<Rightarrow> u64 \<Rightarrow> u64 \<Rightarrow> nat list \<Rightarrow> walk \<Rightarrow> walk" where
  "calc_walk iBucketMask ts hc iTop iTimeNow iLastMilisec [] w = w"
| "calc_walk iBucketMask ts hc iTop iTimeNow iLastMilisec (i # rest) w =
     (let idx = slot_idx iBucketMask iTop i in
      if ts ! idx = 0 then w
      else
        let w1 = (if iLastestStamp w = 0
                  then w\<lparr>iLastestStamp := ts ! idx, iLastestHashCnt := hc ! idx\<rparr> else w) in
        if iTimeNow - ts ! idx > iLastMilisec then w1\<lparr>bHaveFullSet := True\<rparr>
        else calc_walk iBucketMask ts hc iTop iTimeNow iLastMilisec rest
               (w1\<lparr>iEarliestStamp := ts ! idx, iEarliestHashCnt := hc ! idx\<rparr>))"

definition telemetry_walk :: "nat \<Rightarrow> u64 \<Rightarrow> u64 \<Rightarrow> telemetry \<Rightarrow> u64 \<Rightarrow> nat \<Rightarrow> walk" where
  "telemetry_walk iBucketSize iBucketMask iTimeNow t iLastMilisec iThread =
     calc_walk iBucketMask (ppTimestamps t ! iThread) (ppHashCounts t ! iThread)
       (iBucketTop t ! iThread) iTimeNow iLastMilisec [1..<iBucketSize] walk_init"

text \<open>
  \<open>telemetry::calc_telemetry_data\<close>. The clock reading \<open>iTimeNow\<close> is an input. The result
  is a \<open>double\<close>: \<open>None\<close> stands for \<open>nan("")\<close>, and \<open>Some q\<close> for the quotient of the two
  converted 64-bit differences, taken here as the exact quotient.
\<close>

definition calc_result :: "walk \<Rightarrow> real option" where
  "calc_result w =
     (if \<not> bHaveFullSet w \<or> iEarliestStamp w = 0 \<or> iLastestStamp w = 0 then None
      else if iLastestStamp w - iEarliestStamp w = 0 then None
      else
        let fHashes = real (unat (iLastestHashCnt w - iEarliestHashCnt w));
            fTime = real (unat (iLastestStamp w - iEarliestStamp w)) / 1000
        in Some (fHashes / fTime))"

definition calc_telemetry_data :: "nat \<Rightarrow> u64 \<Rightarrow> u64 \<Rightarrow> telemetry \<Rightarrow> u64 \<Rightarrow> nat \<Rightarrow> real option" where
  "calc_telemetry_data iBucketSize iBucketMask iTimeNow t iLastMilisec iThread =
     calc_result (telemetry_walk iBucketSize iBucketMask iTimeNow t iLastMilisec iThread)"

text \<open>
  The samples in the order the walk reads them: round \<open>i\<close> reads the slot \<open>i\<close> places behind
  the write cursor, as (timestamp, hash count).
\<close>

definition sample_at :: "u64 \<Rightarrow> u64 list \<Rightarrow> u64 list \<Rightarrow> u32 \<Rightarrow> nat \<Rightarrow> u64 \<times> u64" where
  "sample_at iBucketMask ts hc iTop i =
     (ts ! slot_idx iBucketMask iTop i, hc ! slot_idx iBucketMask iTop i)"

definition walk_samples :: "nat \<Rightarrow> u64 \<Rightarrow> telemetry \<Rightarrow> nat \<Rightarrow> (u64 \<times> u64) list" where
  "walk_samples iBucketSize iBucketMask t iThread =
     map (sample_at iBucketMask (ppTimestamps t ! iThread) (ppHashCounts t ! iThread)
            (iBucketTop t ! iThread)) [1..<iBucketSize]"

text \<open>A sample the loop keeps walking over: written, and not older than the window.\<close>

definition in_window :: "u64 \<Rightarrow> u64 \<Rightarrow> u64 \<times> u64 \<Rightarrow> bool" where
  "in_window iTimeNow iLastMilisec s = (fst s \<noteq> 0 \<and> \<not> iTimeNow - fst s > iLastMilisec)"

text \<open>Example buffers of capacity 8 for one thread: one sample, and four samples.\<close>

definition tele_one :: telemetry where
  "tele_one = push_perf_value 7 (telemetry_ctor 8 (\<lambda>_ _. 0) (\<lambda>_ _. 0) (\<lambda>_. 0) 1) 0 5 100"

definition tele_four :: telemetry where
  "tele_four = push_perf_value 7 (push_perf_value 7 (push_perf_value 7 tele_one 0 13 300) 0 21 700) 0 29 900"

section \<open>Hash contexts: the memory policy and the self test\<close>

text \<open>
  The hash backend (crypto/cryptonight.h), the configuration (jconf.h) and the console
  printer are used by minethd.cpp and defined elsewhere. They are parameters here: the
  backend is a record of functions over an opaque heap state \<open>'h\<close>, the configuration a
  record of the values the getters return, and the printer a list of messages.
\<close>

record cryptonight_ctx =
  ctx_addr :: nat
  ctx_info :: "u8 list"

datatype slow_mem_cfg = never_use | no_mlck | print_warning | always_use | unknown_value

record thd_cfg =
  bDoubleMode :: bool
  bNoPrefetch :: bool
  iCpuAff :: int

record jconf =
  GetSlowMemSetting :: slow_mem_cfg
  GetThreadConfigs :: "thd_cfg list"
  HaveHardwareAes :: bool

text \<open>
  \<open>cryptonight_init\<close> and \<open>cryptonight_alloc_ctx\<close> take \<open>use_fast_mem\<close>, \<open>use_mlock\<close> and a
  message structure; they return their result and what they wrote into \<open>msg.warning\<close>
  (\<open>None\<close>: left untouched). A null context is \<open>None\<close>. The hash functions take the input,
  its length and the context (the batched one a context array) and return the bytes they
  write to the output.
\<close>

record 'h backend =
  cryptonight_init :: "nat \<Rightarrow> nat \<Rightarrow> 'h \<Rightarrow> (nat \<times> string option) \<times> 'h"
  cryptonight_alloc_ctx :: "nat \<Rightarrow> nat \<Rightarrow> 'h \<Rightarrow> (cryptonight_ctx option \<times> string option) \<times> 'h"
  cryptonight_free_ctx :: "cryptonight_ctx \<Rightarrow> 'h \<Rightarrow> 'h"
  cryptonight_hash_ctx :: "u8 list \<Rightarrow> nat \<Rightarrow> cryptonight_ctx \<Rightarrow> u8 list"
  cryptonight_hash_ctx_np :: "u8 list \<Rightarrow> nat \<Rightarrow> cryptonight_ctx \<Rightarrow> u8 list"
  cryptonight_hash_ctx_soft :: "u8 list \<Rightarrow> nat \<Rightarrow> cryptonight_ctx \<Rightarrow> u8 list"
  cryptonight_double_hash_ctx :: "u8 list \<Rightarrow> nat \<Rightarrow> cryptonight_ctx list \<Rightarrow> u8 list"

datatype message =
    MEMORY_ALLOC_FAILED "string option"
  | MEMORY_INIT_ERROR "string option"
  | WRONG_CONFIG_NO_PREFETCH
  | HASH_SELF_TEST_FAILED

record 'h world =
  heap :: 'h
  printed :: "message list"

definition print_msg :: "message \<Rightarrow> 'h world \<Rightarrow> 'h world" where
  "print_msg m w = w\<lparr>printed := printed w @ [m]\<rparr>"

definition alloc_ctx ::
  "'h backend \<Rightarrow> nat \<Rightarrow> nat \<Rightarrow> 'h world \<Rightarrow> (cryptonight_ctx option \<times> string option) \<times> 'h world" where
  "alloc_ctx bk use_fast_mem use_mlock w =
     (case cryptonight_alloc_ctx bk use_fast_mem use_mlock (heap w) of
        (r, h) \<Rightarrow> (r, w\<lparr>heap := h\<rparr>))"

definition free_ctx :: "'h backend \<Rightarrow> cryptonight_ctx \<Rightarrow> 'h world \<Rightarrow> 'h world" where
  "free_ctx bk c w = w\<lparr>heap := cryptonight_free_ctx bk c (heap w)\<rparr>"

text \<open>
  \<open>minethd_alloc_ctx\<close>, one equation per \<open>case\<close> of the switch. The second allocation of
  the \<open>print_warning\<close> case passes a null message, so nothing it reports is kept.
\<close>

fun minethd_alloc_ctx ::
  "'h backend \<Rightarrow> slow_mem_cfg \<Rightarrow> 'h world \<Rightarrow> cryptonight_ctx option \<times> 'h world" where
  "minethd_alloc_ctx bk never_use w =
     (case alloc_ctx bk 1 1 w of
        ((ctx, warning), w1) \<Rightarrow>
          (ctx, if ctx = None then print_msg (MEMORY_ALLOC_FAILED warning) w1 else w1))"
| "minethd_alloc_ctx bk no_mlck w =
     (case alloc_ctx bk 1 0 w of
        ((ctx, warning), w1) \<Rightarrow>
          (ctx, if ctx = None then print_msg (MEMORY_ALLOC_FAILED warning) w1 else w1))"
| "minethd_alloc_ctx bk print_warning w =
     (case alloc_ctx bk 1 1 w of
        ((ctx, warning), w1) \<Rightarrow>
          let w2 = (if warning \<noteq> None then print_msg (MEMORY_ALLOC_FAILED warning) w1 else w1)
          in if ctx = None
             then (case alloc_ctx bk 0 0 w2 of ((ctx', _), w3) \<Rightarrow> (ctx', w3))
             else (ctx, w2))"
| "minethd_alloc_ctx bk always_use w =
     (case alloc_ctx bk 0 0 w of ((ctx, _), w1) \<Rightarrow> (ctx, w1))"
| "minethd_alloc_ctx bk unknown_value w = (None, w)"

text \<open>The first switch of \<open>self_test\<close>: the result of the init call, its warning, and \<open>fatal\<close>.\<close>

fun self_test_init ::
  "'h backend \<Rightarrow> slow_mem_cfg \<Rightarrow> 'h world \<Rightarrow> ((nat \<times> string option \<times> bool) \<times> 'h world) option" where
  "self_test_init bk never_use w =
     (case cryptonight_init bk 1 1 (heap w) of
        ((res, warning), h) \<Rightarrow> Some ((res, warning, True), w\<lparr>heap := h\<rparr>))"
| "self_test_init bk no_mlck w =
     (case cryptonight_init bk 1 0 (heap w) of
        ((res, warning), h) \<Rightarrow> Some ((res, warning, True), w\<lparr>heap := h\<rparr>))"
| "self_test_init bk print_warning w =
     (case cryptonight_init bk 1 1 (heap w) of
        ((res, warning), h) \<Rightarrow> Some ((res, warning, False), w\<lparr>heap := h\<rparr>))"
| "self_test_init bk always_use w =
     (case cryptonight_init bk 0 0 (heap w) of
        ((res, warning), h) \<Rightarrow> Some ((res, warning, False), w\<lparr>heap := h\<rparr>))"
| "self_test_init bk unknown_value w = None"

text \<open>The loop over the thread configurations (lines 271 to 285): \<open>False\<close> is the early return.\<close>

fun no_prefetch_allowed :: "bool \<Rightarrow> thd_cfg list \<Rightarrow> bool" where
  "no_prefetch_allowed bHasLp [] = True"
| "no_prefetch_allowed bHasLp (cfg # cfgs) =
     (if \<not> bHasLp \<and> bNoPrefetch cfg then False else no_prefetch_allowed bHasLp cfgs)"

text \<open>Bytes of a C string literal, a write into a buffer at an offset, and \<open>memcmp(a, b, n) == 0\<close>.\<close>

definition bytes_of :: "string \<Rightarrow> u8 list" where
  "bytes_of s = map (\<lambda>c. of_nat (of_char c)) s"

definition store_bytes :: "u8 list \<Rightarrow> nat \<Rightarrow> u8 list \<Rightarrow> u8 list" where
  "store_bytes buf off bs = take off buf @ bs @ drop (off + length bs) buf"

definition memcmp_eq :: "u8 list \<Rightarrow> u8 list \<Rightarrow> nat \<Rightarrow> bool" where
  "memcmp_eq a b n = (take n a = take n b)"

text \<open>The digest the software path is compared with (line 310).\<close>

definition expected_soft_digest :: "u8 list" where
  "expected_soft_digest =
     [0xa0, 0x84, 0xf0, 0x1d, 0x14, 0x37, 0xa0, 0x9c, 0x69, 0x85, 0x40, 0x1b, 0x60, 0xd4, 0x35, 0x54,
      0xae, 0x10, 0x58, 0x02, 0xc5, 0xf5, 0xd8, 0xa9, 0xb3, 0x25, 0x36, 0x49, 0xc0, 0xbe, 0x66, 0x05]"

text \<open>
  Lines 287 to 311: the value of \<open>bResult\<close>. \<open>out0\<close> and \<open>results0\<close> are the two local arrays
  as they are before anything is written to them.
\<close>

definition self_test_hashes ::
  "'h backend \<Rightarrow> bool \<Rightarrow> cryptonight_ctx \<Rightarrow> cryptonight_ctx \<Rightarrow> cryptonight_ctx \<Rightarrow> cryptonight_ctx
     \<Rightarrow> cryptonight_ctx \<Rightarrow> u8 list \<Rightarrow> u8 list \<Rightarrow> bool" where
  "self_test_hashes bk haveAes ctx0 ctx1 ctx2 ctx3 ctx4 out0 results0 =
     (if haveAes then
        let results1 = store_bytes results0 0 (cryptonight_hash_ctx_np bk (bytes_of ''nada'') 4 ctx0);
            results7 = fold (\<lambda>z r. store_bytes r (32 * z)
                               (cryptonight_hash_ctx_np bk (bytes_of ''nado'') 4 ctx0))
                         [1..<7] results1;
            ctx = [ctx0, ctx1, ctx2, ctx3, ctx4, ctx4, ctx4, ctx4];
            out1 = store_bytes out0 0
                     (cryptonight_double_hash_ctx bk
                        (bytes_of ''nadanadonadonadonadonadonadonado'') 4 ctx)
        in memcmp_eq out1 results7 (32 * 2)
      else
        let out1 = store_bytes out0 0
                     (cryptonight_hash_ctx_soft bk (bytes_of ''This is a test'') 14 ctx0)
        in memcmp_eq out1 expected_soft_digest 32)"

text \<open>
  \<open>minethd::self_test\<close> up to line 285: the init call, the five allocations and the
  check of the thread configurations. \<open>Inl w\<close> is a \<open>return false\<close> in world \<open>w\<close>; \<open>Inr\<close>
  carries the five contexts on to the hashes.
\<close>

definition self_test_setup ::
  "'h backend \<Rightarrow> jconf \<Rightarrow> 'h world
     \<Rightarrow> 'h world + (cryptonight_ctx \<times> cryptonight_ctx \<times> cryptonight_ctx \<times> cryptonight_ctx
                     \<times> cryptonight_ctx \<times> 'h world)" where
  "self_test_setup bk cfg w0 =
     (let pol = GetSlowMemSetting cfg in
      case self_test_init bk pol w0 of
        None \<Rightarrow> Inl w0
      | Some ((res, warning, fatal), w1) \<Rightarrow>
          let w2 = (if warning \<noteq> None then print_msg (MEMORY_INIT_ERROR warning) w1 else w1) in
          if res = 0 \<and> fatal then Inl w2
          else
            case minethd_alloc_ctx bk pol w2 of
              (None, w3) \<Rightarrow> Inl w3
            | (Some ctx0, w3) \<Rightarrow>
            case minethd_alloc_ctx bk pol w3 of
              (None, w4) \<Rightarrow> Inl (free_ctx bk ctx0 w4)
            | (Some ctx1, w4) \<Rightarrow>
            case minethd_alloc_ctx bk pol w4 of
              (None, w5) \<Rightarrow> Inl (free_ctx bk ctx1 (free_ctx bk ctx0 w5))
            | (Some ctx2, w5) \<Rightarrow>
            case minethd_alloc_ctx bk pol w5 of
              (None, w6) \<Rightarrow> Inl (free_ctx bk ctx2 (free_ctx bk ctx1 (free_ctx bk ctx0 w6)))
            | (Some ctx3, w6) \<Rightarrow>
            case minethd_alloc_ctx bk pol w6 of
              (None, w7) \<Rightarrow>
                Inl (free_ctx bk ctx3 (free_ctx bk ctx2 (free_ctx bk ctx1 (free_ctx bk ctx0 w7))))
            | (Some ctx4, w7) \<Rightarrow>
                let bHasLp = (ctx_info ctx0 ! 0 = 1 \<and> ctx_info ctx1 ! 0 = 1)
                in if \<not> no_prefetch_allowed bHasLp (GetThreadConfigs cfg)
                   then Inl (free_ctx bk ctx4 (free_ctx bk ctx3 (free_ctx bk ctx2
                              (free_ctx bk ctx1 (free_ctx bk ctx0
                                (print_msg WRONG_CONFIG_NO_PREFETCH w7))))))
                   else Inr (ctx0, ctx1, ctx2, ctx3, ctx4, w7))"

text \<open>\<open>minethd::self_test\<close>: the setup, then the hashes, the frees and the verdict.\<close>

definition self_test ::
  "'h backend \<Rightarrow> jconf \<Rightarrow> u8 list \<Rightarrow> u8 list \<Rightarrow> 'h world \<Rightarrow> bool \<times> 'h world" where
  "self_test bk cfg out0 results0 w0 =
     (case self_test_setup bk cfg w0 of
        Inl w \<Rightarrow> (False, w)
      | Inr (ctx0, ctx1, ctx2, ctx3, ctx4, w7) \<Rightarrow>
          let bResult = self_test_hashes bk (HaveHardwareAes cfg)
                          ctx0 ctx1 ctx2 ctx3 ctx4 out0 results0;
              w8 = free_ctx bk ctx4 (free_ctx bk ctx3 (free_ctx bk ctx2
                     (free_ctx bk ctx1 (free_ctx bk ctx0 w7))))
          in (bResult, if \<not> bResult then print_msg HASH_SELF_TEST_FAILED w8 else w8))"

text \<open>
  Example backends over a heap that is the list of calls made so far. In both, locked
  allocations fail with a warning and ordinary ones succeed. The first answers every hash
  with the expected software digest (the batched one with two of them); the second
  answers every hash with zeros.
\<close>

datatype call = Init nat nat | Alloc nat nat | Free nat

definition ex_alloc :: "nat \<Rightarrow> nat \<Rightarrow> call list \<Rightarrow> (cryptonight_ctx option \<times> string option) \<times> call list" where
  "ex_alloc use_fast_mem use_mlock h =
     (if use_fast_mem = 0
      then ((Some \<lparr>ctx_addr = length h, ctx_info = [0, 0]\<rparr>, None), h @ [Alloc use_fast_mem use_mlock])
      else ((None, Some ''mmap failed''), h @ [Alloc use_fast_mem use_mlock]))"

definition ex_backend :: "u8 list \<Rightarrow> call list backend" where
  "ex_backend d =
     \<lparr>cryptonight_init = (\<lambda>a b h. ((1, None), h @ [Init a b])),
      cryptonight_alloc_ctx = ex_alloc,
      cryptonight_free_ctx = (\<lambda>c h. h @ [Free (ctx_addr c)]),
      cryptonight_hash_ctx = (\<lambda>_ _ _. d),
      cryptonight_hash_ctx_np = (\<lambda>_ _ _. d),
      cryptonight_hash_ctx_soft = (\<lambda>_ _ _. d),
      cryptonight_double_hash_ctx = (\<lambda>_ _ _. d @ d)\<rparr>"

definition ex_world :: "call list world" where
  "ex_world = \<lparr>heap = [], printed = []\<rparr>"

definition ex_jconf :: "slow_mem_cfg \<Rightarrow> bool \<Rightarrow> jconf" where
  "ex_jconf pol aes =
     \<lparr>GetSlowMemSetting = pol,
      GetThreadConfigs = [\<lparr>bDoubleMode = False, bNoPrefetch = False, iCpuAff = -1\<rparr>],
      HaveHardwareAes = aes\<rparr>"

definition ex_ctx :: "nat \<Rightarrow> cryptonight_ctx" where
  "ex_ctx a = \<lparr>ctx_addr = a, ctx_info = [0, 0]\<rparr>"

section \<open>Job broadcast and worker threads\<close>

text \<open>
  The job record, the result record and the event pushed to the executor are declared in
  minethd.h and executor.h; the fields below are the ones minethd.cpp uses. The fields of
  \<open>job_result\<close> carry the prefix \<open>jr_\<close>, since \<open>sJobID\<close> and \<open>iNonce\<close> name other things too.
\<close>

record miner_work =
  sJobID :: string
  bWorkBlob :: "u8 list"
  iWorkSize :: u32
  iResumeCnt :: u32
  iTarget :: u64
  bNiceHash :: bool
  bStall :: bool
  iPoolId :: nat

record job_result =
  jr_sJobID :: string
  jr_iNonce :: u32
  jr_bResult :: "u8 list"

record ex_event =
  ev_result :: job_result
  ev_iPoolId :: nat

text \<open>The static members of \<open>minethd\<close>: the state all threads share.\<close>

record shared =
  iGlobalJobNo :: u64
  iConsumeCnt :: u64
  oGlobalWork :: miner_work
  iThreadCount :: u64

text \<open>The members of one \<open>minethd\<close> object (its \<open>bNoPrefetch\<close> is \<open>bNoPrefetchThd\<close> here).\<close>

record minethd =
  oWork :: miner_work
  bQuit :: bool
  iThreadNo :: u8
  iJobNo :: u64
  iHashCount :: u64
  iTimestamp :: u64
  bNoPrefetchThd :: bool

text \<open>The two inline nonce functions of minethd.h, as parameters.\<close>

record nonce_fns =
  calc_start_nonce :: "shared \<Rightarrow> minethd \<Rightarrow> u32 \<Rightarrow> u32"
  calc_nicehash_nonce :: "shared \<Rightarrow> minethd \<Rightarrow> u32 \<Rightarrow> u32 \<Rightarrow> u32"

subsection \<open>The handoff\<close>

text \<open>The part of \<open>thread_starter\<close> that touches the shared state (lines 328, 329 and 360).\<close>

definition thread_starter :: "u64 \<Rightarrow> shared \<Rightarrow> shared" where
  "thread_starter n s = s\<lparr>iGlobalJobNo := 0, iConsumeCnt := 0, iThreadCount := n\<rparr>"

text \<open>
  \<open>switch_work\<close>. One evaluation of the loop condition either sends the producer to sleep
  (\<open>None\<close>) or lets it install the work.
\<close>

definition switch_work_poll :: "miner_work \<Rightarrow> shared \<Rightarrow> shared option" where
  "switch_work_poll pWork s =
     (if iConsumeCnt s < iThreadCount s then None
      else Some (s\<lparr>oGlobalWork := pWork, iConsumeCnt := 0, iGlobalJobNo := iGlobalJobNo s + 1\<rparr>))"

text \<open>
  The whole call. While the producer sleeps, only worker threads run, and all they do to
  the shared state is increment the consumed count: \<open>ticks\<close> lists, for each sleep of 100
  ms, how many increments happen during it. \<open>None\<close>: the producer is still waiting when the
  list ends.
\<close>

fun switch_work :: "nat list \<Rightarrow> miner_work \<Rightarrow> shared \<Rightarrow> shared option" where
  "switch_work [] pWork s = switch_work_poll pWork s"
| "switch_work (k # ticks) pWork s =
     (if iConsumeCnt s < iThreadCount s
      then switch_work ticks pWork (s\<lparr>iConsumeCnt := iConsumeCnt s + of_nat k\<rparr>)
      else switch_work_poll pWork s)"

text \<open>\<open>consume_work\<close>, on the shared state and the calling thread's object.\<close>

definition consume_work :: "shared \<Rightarrow> minethd \<Rightarrow> shared \<times> minethd" where
  "consume_work s m =
     (s\<lparr>iConsumeCnt := iConsumeCnt s + 1\<rparr>,
      m\<lparr>oWork := oGlobalWork s, iJobNo := iJobNo m + 1\<rparr>)"

subsection \<open>Bytes and words\<close>

text \<open>A 32-bit store and the 32- and 64-bit loads through a cast pointer, little-endian.\<close>

definition le_bytes32 :: "u32 \<Rightarrow> u8 list" where
  "le_bytes32 v = [ucast v, ucast (drop_bit 8 v), ucast (drop_bit 16 v), ucast (drop_bit 24 v)]"

definition le_word :: "u8 list \<Rightarrow> 'a::len word" where
  "le_word bs = foldr (\<lambda>b acc. ucast b OR push_bit 8 acc) bs 0"

definition read_u32 :: "u8 list \<Rightarrow> nat \<Rightarrow> u32" where
  "read_u32 buf off = le_word (take 4 (drop off buf))"

definition read_u64 :: "u8 list \<Rightarrow> nat \<Rightarrow> u64" where
  "read_u64 buf off = le_word (take 8 (drop off buf))"

subsection \<open>The state of a running worker\<close>

text \<open>
  Where a thread stands: before its loop, at the condition of the outer loop, in the
  stall loop, in the hashing loop, or past the outer loop.
\<close>

datatype pc = AtStart | AtOuter | AtStall | AtInner | AtExit

datatype fault = NullPointer | NullContext

text \<open>
  What both thread bodies work on: the shared state, the thread's object, the local
  \<open>iCount\<close>, the allocator's world and the events pushed to the executor.
\<close>

record 'h thread_state =
  glob :: shared
  self :: minethd
  pc :: pc
  iCount :: u64
  env :: "'h world"
  pushed :: "ex_event list"

text \<open>The other locals of \<open>work_main\<close>. Its \<open>piNonce\<close> is \<open>oWork.bWorkBlob + 39\<close> throughout.\<close>

record 'h work_main_state = "'h thread_state" +
  ctx :: "cryptonight_ctx option"
  result :: job_result

text \<open>
  The other locals of \<open>double_work_main\<close>. A pointer into \<open>bDoubleWorkBlob\<close> is its offset;
  \<open>None\<close> is \<open>nullptr\<close>. \<open>piHashVal[i]\<close> is \<open>bDoubleHashOut + 32 * i + 24\<close> throughout.
\<close>

record 'h double_work_state = "'h thread_state" +
  ctxs :: "cryptonight_ctx option list"
  bDoubleHashOut :: "u8 list"
  bDoubleWorkBlob :: "u8 list"
  piNonce :: "nat option list"
  iNonce :: u32

definition hashes :: nat where
  "hashes = 2"

text \<open>The statistics stored at the head of both hashing loops.\<close>

definition store_stats :: "u64 \<Rightarrow> u64 \<Rightarrow> minethd \<Rightarrow> minethd" where
  "store_stats cnt iStamp m =
     (if cnt AND 0x7 = 0 then m\<lparr>iHashCount := cnt, iTimestamp := iStamp\<rparr> else m)"

subsection \<open>The single-hash worker\<close>

text \<open>One round of the hashing loop of \<open>work_main\<close> (lines 425 to 449).\<close>

definition work_inner_body ::
  "'h backend \<Rightarrow> bool \<Rightarrow> u64 \<Rightarrow> 'h work_main_state \<Rightarrow> fault + 'h work_main_state" where
  "work_inner_body bk bHaveAes iStamp st =
     (let m1 = store_stats (iCount st) iStamp (self st);
          nonce = jr_iNonce (result st) + 1;
          blob = store_bytes (bWorkBlob (oWork m1)) 39 (le_bytes32 nonce);
          m2 = m1\<lparr>oWork := (oWork m1)\<lparr>bWorkBlob := blob\<rparr>\<rparr>
      in case ctx st of
           None \<Rightarrow> Inl NullContext
         | Some c \<Rightarrow>
             let hash = (if bHaveAes
                         then (if bNoPrefetchThd m2 then cryptonight_hash_ctx_np bk
                               else cryptonight_hash_ctx bk)
                         else cryptonight_hash_ctx_soft bk);
                 res = (result st)\<lparr>jr_iNonce := nonce,
                          jr_bResult := store_bytes (jr_bResult (result st)) 0
                                          (hash blob (unat (iWorkSize (oWork m2))) c)\<rparr>;
                 evs = (if read_u64 (jr_bResult res) 24 < iTarget (oWork m2)
                        then [\<lparr>ev_result = res, ev_iPoolId = iPoolId (oWork m2)\<rparr>] else [])
             in Inr (st\<lparr>self := m2, iCount := iCount st + 1, result := res,
                        pushed := pushed st @ evs\<rparr>))"

text \<open>
  One step of \<open>work_main\<close> from each place: the prologue, one evaluation of the outer
  condition with what follows up to the next loop, and one evaluation of the condition of
  the stall loop or of the hashing loop with the round or the exit it leads to. A context
  that is null raises \<open>NullContext\<close> where it would be hashed with, and is not handed to
  \<open>cryptonight_free_ctx\<close> at the end.
\<close>

definition work_main_step ::
  "'h backend \<Rightarrow> jconf \<Rightarrow> nonce_fns \<Rightarrow> u64 \<Rightarrow> 'h work_main_state \<Rightarrow> fault + 'h work_main_state" where
  "work_main_step bk cfg nf iStamp st =
     (case pc st of
        AtStart \<Rightarrow>
          (case minethd_alloc_ctx bk (GetSlowMemSetting cfg) (env st) of
             (c, w) \<Rightarrow>
               Inr (st\<lparr>ctx := c, env := w,
                       glob := (glob st)\<lparr>iConsumeCnt := iConsumeCnt (glob st) + 1\<rparr>,
                       pc := AtOuter\<rparr>))
      | AtOuter \<Rightarrow>
          if bQuit (self st) then
            Inr (st\<lparr>env := (case ctx st of None \<Rightarrow> env st | Some c \<Rightarrow> free_ctx bk c (env st)),
                    pc := AtExit\<rparr>)
          else if bStall (oWork (self st)) then Inr (st\<lparr>pc := AtStall\<rparr>)
          else
            let w = oWork (self st);
                start = (if bNiceHash w
                         then calc_nicehash_nonce nf (glob st) (self st)
                                (read_u32 (bWorkBlob w) 39) (iResumeCnt w)
                         else calc_start_nonce nf (glob st) (self st) (iResumeCnt w))
            in Inr (st\<lparr>result := (result st)\<lparr>jr_iNonce := start, jr_sJobID := sJobID w\<rparr>,
                       pc := AtInner\<rparr>)
      | AtStall \<Rightarrow>
          if iGlobalJobNo (glob st) = iJobNo (self st) then Inr st
          else (case consume_work (glob st) (self st) of
                  (g, m) \<Rightarrow> Inr (st\<lparr>glob := g, self := m, pc := AtOuter\<rparr>))
      | AtInner \<Rightarrow>
          if iGlobalJobNo (glob st) = iJobNo (self st)
          then work_inner_body bk (HaveHardwareAes cfg) iStamp st
          else (case consume_work (glob st) (self st) of
                  (g, m) \<Rightarrow> Inr (st\<lparr>glob := g, self := m, pc := AtOuter\<rparr>))
      | AtExit \<Rightarrow> Inr st)"

subsection \<open>The dual-hash worker\<close>

text \<open>The loop \<open>*piNonce[i] = ++iNonce\<close> (lines 518 and 519) over the lanes' pointers.\<close>

fun write_nonces :: "nat option list \<Rightarrow> u32 \<Rightarrow> u8 list \<Rightarrow> fault + (u32 \<times> u8 list)" where
  "write_nonces [] v blob = Inr (v, blob)"
| "write_nonces (None # ps) v blob = Inl NullPointer"
| "write_nonces (Some off # ps) v blob =
     write_nonces ps (v + 1) (store_bytes blob off (le_bytes32 (v + 1)))"

text \<open>The result of lane \<open>i\<close> as line 524 builds it, and the loop of lines 522 to 525.\<close>

definition lane_result :: "miner_work \<Rightarrow> u32 \<Rightarrow> u8 list \<Rightarrow> nat \<Rightarrow> job_result" where
  "lane_result w v out i =
     \<lparr>jr_sJobID = sJobID w, jr_iNonce = v - of_nat (hashes - i - 1),
      jr_bResult = take 32 (drop (32 * i) out)\<rparr>"

definition emit_results :: "miner_work \<Rightarrow> u32 \<Rightarrow> u8 list \<Rightarrow> ex_event list" where
  "emit_results w v out =
     concat (map (\<lambda>i. if read_u64 out (32 * i + 24) < iTarget w
                       then [\<lparr>ev_result = lane_result w v out i, ev_iPoolId = iPoolId w\<rparr>]
                       else [])
               [0..<hashes])"

text \<open>One round of the hashing loop of \<open>double_work_main\<close> (lines 508 to 527).\<close>

definition double_inner_body ::
  "'h backend \<Rightarrow> u64 \<Rightarrow> 'h double_work_state \<Rightarrow> fault + 'h double_work_state" where
  "double_inner_body bk iStamp st =
     (let m1 = store_stats (iCount st) iStamp (self st)
      in case write_nonces (take hashes (piNonce st)) (iNonce st) (bDoubleWorkBlob st) of
           Inl f \<Rightarrow> Inl f
         | Inr (v, blob) \<Rightarrow>
             (case those (ctxs st) of
                None \<Rightarrow> Inl NullContext
              | Some cs \<Rightarrow>
                  let out = store_bytes (bDoubleHashOut st) 0
                              (cryptonight_double_hash_ctx bk blob (unat (iWorkSize (oWork m1))) cs)
                  in Inr (st\<lparr>self := m1, iCount := iCount st + of_nat hashes, iNonce := v,
                             bDoubleWorkBlob := blob, bDoubleHashOut := out,
                             pushed := pushed st @ emit_results (oWork m1) v out\<rparr>)))"

text \<open>
  The copy loops after \<open>consume_work\<close>: the one of the stall branch (lines 492 to 495) sets
  every lane's pointer, the one after the hashing loop (lines 531 to 534) every pointer
  but lane 0's. \<open>i * iWorkSize\<close> is computed in 32 bits.
\<close>

definition lane_off :: "miner_work \<Rightarrow> nat \<Rightarrow> nat" where
  "lane_off w i = unat (of_nat i * iWorkSize w)"

definition copy_lane :: "miner_work \<Rightarrow> nat \<Rightarrow> u8 list \<Rightarrow> u8 list" where
  "copy_lane w i blob =
     store_bytes blob (lane_off w i) (take (unat (iWorkSize w)) (bWorkBlob w))"

definition resync_after_stall :: "'h double_work_state \<Rightarrow> 'h double_work_state" where
  "resync_after_stall st =
     fold (\<lambda>i s. s\<lparr>bDoubleWorkBlob := copy_lane (oWork (self s)) i (bDoubleWorkBlob s),
                   piNonce := (piNonce s)[i := Some (lane_off (oWork (self s)) i + 39)]\<rparr>)
       [0..<hashes] st"

definition resync_after_job :: "'h double_work_state \<Rightarrow> 'h double_work_state" where
  "resync_after_job st =
     fold (\<lambda>i s. s\<lparr>bDoubleWorkBlob := copy_lane (oWork (self s)) i (bDoubleWorkBlob s),
                   piNonce := (if i > 0
                               then (piNonce s)[i := Some (lane_off (oWork (self s)) i + 39)]
                               else piNonce s)\<rparr>)
       [0..<hashes] st"

text \<open>The allocation loop of the prologue (lines 471 to 475), then line 476.\<close>

fun alloc_ctxs ::
  "'h backend \<Rightarrow> slow_mem_cfg \<Rightarrow> nat \<Rightarrow> 'h world \<Rightarrow> cryptonight_ctx option list \<times> 'h world" where
  "alloc_ctxs bk pol 0 w = ([], w)"
| "alloc_ctxs bk pol (Suc n) w =
     (case minethd_alloc_ctx bk pol w of
        (c, w1) \<Rightarrow> (case alloc_ctxs bk pol n w1 of (cs, w2) \<Rightarrow> (c # cs, w2)))"

definition double_work_step ::
  "'h backend \<Rightarrow> jconf \<Rightarrow> nonce_fns \<Rightarrow> u64 \<Rightarrow> 'h double_work_state \<Rightarrow> fault + 'h double_work_state" where
  "double_work_step bk cfg nf iStamp st =
     (case pc st of
        AtStart \<Rightarrow>
          (case alloc_ctxs bk (GetSlowMemSetting cfg) hashes (env st) of
             (cs, w) \<Rightarrow>
               Inr (st\<lparr>ctxs := cs, env := w,
                       piNonce := (replicate hashes None)[0 := Some 39],
                       glob := (glob st)\<lparr>iConsumeCnt := iConsumeCnt (glob st) + 1\<rparr>,
                       pc := AtOuter\<rparr>))
      | AtOuter \<Rightarrow>
          if bQuit (self st) then
            Inr (st\<lparr>env := fold (\<lambda>c w. case c of None \<Rightarrow> w | Some c' \<Rightarrow> free_ctx bk c' w)
                              (ctxs st) (env st),
                    pc := AtExit\<rparr>)
          else if bStall (oWork (self st)) then Inr (st\<lparr>pc := AtStall\<rparr>)
          else
            let w = oWork (self st) in
            if bNiceHash w then
              (case piNonce st ! 0 of
                 None \<Rightarrow> Inl NullPointer
               | Some off \<Rightarrow>
                   Inr (st\<lparr>iNonce := calc_nicehash_nonce nf (glob st) (self st)
                                       (read_u32 (bDoubleWorkBlob st) off) (iResumeCnt w),
                           pc := AtInner\<rparr>))
            else Inr (st\<lparr>iNonce := calc_start_nonce nf (glob st) (self st) (iResumeCnt w),
                         pc := AtInner\<rparr>)
      | AtStall \<Rightarrow>
          if iGlobalJobNo (glob st) = iJobNo (self st) then Inr st
          else (case consume_work (glob st) (self st) of
                  (g, m) \<Rightarrow> Inr (resync_after_stall (st\<lparr>glob := g, self := m, pc := AtOuter\<rparr>)))
      | AtInner \<Rightarrow>
          if iGlobalJobNo (glob st) = iJobNo (self st)
          then double_inner_body bk iStamp st
          else (case consume_work (glob st) (self st) of
                  (g, m) \<Rightarrow> Inr (resync_after_job (st\<lparr>glob := g, self := m, pc := AtOuter\<rparr>)))
      | AtExit \<Rightarrow> Inr st)"

subsection \<open>Runs of one worker among the other threads\<close>

text \<open>
  What happens around one worker: the thread owning it sets \<open>bQuit\<close>, the worker takes a
  step (with the clock reading it would see), the producer inside \<open>switch_work\<close> evaluates
  its loop condition once, or another worker increments the consumed count.
\<close>

datatype event = SetQuit | Tick u64 | PublishPoll miner_work | OtherConsumed

definition env_event :: "event \<Rightarrow> ('h, 'z) thread_state_scheme \<Rightarrow> ('h, 'z) thread_state_scheme" where
  "env_event e st =
     (case e of
        SetQuit \<Rightarrow> st\<lparr>self := (self st)\<lparr>bQuit := True\<rparr>\<rparr>
      | PublishPoll w \<Rightarrow>
          (case switch_work_poll w (glob st) of None \<Rightarrow> st | Some g \<Rightarrow> st\<lparr>glob := g\<rparr>)
      | OtherConsumed \<Rightarrow> st\<lparr>glob := (glob st)\<lparr>iConsumeCnt := iConsumeCnt (glob st) + 1\<rparr>\<rparr>
      | Tick _ \<Rightarrow> st)"

fun work_main_run ::
  "'h backend \<Rightarrow> jconf \<Rightarrow> nonce_fns \<Rightarrow> event list \<Rightarrow> 'h work_main_state
     \<Rightarrow> fault + 'h work_main_state" where
  "work_main_run bk cfg nf [] st = Inr st"
| "work_main_run bk cfg nf (Tick iStamp # es) st =
     (case work_main_step bk cfg nf iStamp st of
        Inl f \<Rightarrow> Inl f
      | Inr st' \<Rightarrow> work_main_run bk cfg nf es st')"
| "work_main_run bk cfg nf (e # es) st = work_main_run bk cfg nf es (env_event e st)"

fun double_work_run ::
  "'h backend \<Rightarrow> jconf \<Rightarrow> nonce_fns \<Rightarrow> event list \<Rightarrow> 'h double_work_state
     \<Rightarrow> fault + 'h double_work_state" where
  "double_work_run bk cfg nf [] st = Inr st"
| "double_work_run bk cfg nf (Tick iStamp # es) st =
     (case double_work_step bk cfg nf iStamp st of
        Inl f \<Rightarrow> Inl f
      | Inr st' \<Rightarrow> double_work_run bk cfg nf es st')"
| "double_work_run bk cfg nf (e # es) st = double_work_run bk cfg nf es (env_event e st)"

text \<open>Events that leave the global job as it is.\<close>

fun job_unchanged :: "event list \<Rightarrow> bool" where
  "job_unchanged [] = True"
| "job_unchanged (PublishPoll w # es) = False"
| "job_unchanged (e # es) = job_unchanged es"

subsection \<open>Example threads\<close>

text \<open>The constructor of \<open>minethd\<close>, up to the launch of the thread.\<close>

definition minethd_ctor :: "miner_work \<Rightarrow> nat \<Rightarrow> bool \<Rightarrow> minethd" where
  "minethd_ctor pWork iNo no_prefetch =
     \<lparr>oWork = pWork, bQuit = False, iThreadNo = of_nat iNo, iJobNo = 0, iHashCount = 0,
      iTimestamp = 0, bNoPrefetchThd = no_prefetch\<rparr>"

text \<open>
  A job of 76 bytes whose target no digest is below, stalled or not, the shared state
  right after \<open>thread_starter\<close> for one thread, and nonce functions that start at the
  resume counter.
\<close>

definition ex_work :: "bool \<Rightarrow> miner_work" where
  "ex_work stall =
     \<lparr>sJobID = ''job'', bWorkBlob = replicate 76 0x11 @ replicate 36 0, iWorkSize = 76,
      iResumeCnt = 5, iTarget = 0, bNiceHash = False, bStall = stall, iPoolId = 0\<rparr>"

definition ex_shared :: "miner_work \<Rightarrow> shared" where
  "ex_shared w =
     thread_starter 1 \<lparr>iGlobalJobNo = 0, iConsumeCnt = 0, oGlobalWork = w, iThreadCount = 0\<rparr>"

definition ex_nonce_fns :: nonce_fns where
  "ex_nonce_fns = \<lparr>calc_start_nonce = (\<lambda>_ _ resume. resume),
                    calc_nicehash_nonce = (\<lambda>_ _ start resume. start + resume)\<rparr>"

text \<open>
  A single-hash and a dual-hash thread as their constructor leaves them, before the first
  statement of the thread body: the locals hold whatever the stack holds (0xcc bytes
  here, no context, no pointer).
\<close>

definition ex_work_main :: "miner_work \<Rightarrow> call list work_main_state" where
  "ex_work_main pWork =
     \<lparr>glob = ex_shared pWork, self = minethd_ctor pWork 0 False, pc = AtStart, iCount = 0,
      env = ex_world, pushed = [],
      ctx = None, result = \<lparr>jr_sJobID = [], jr_iNonce = 0xcccccccc, jr_bResult = replicate 32 0xcc\<rparr>\<rparr>"

definition ex_double_work :: "miner_work \<Rightarrow> call list double_work_state" where
  "ex_double_work pWork =
     \<lparr>glob = ex_shared pWork, self = minethd_ctor pWork 0 False, pc = AtStart, iCount = 0,
      env = ex_world, pushed = [],
      ctxs = [], bDoubleHashOut = replicate 64 0xcc, bDoubleWorkBlob = replicate 560 0xcc,
      piNonce = [], iNonce = 0xcccccccc\<rparr>"

definition ex_cfg :: jconf where
  "ex_cfg = ex_jconf always_use False"

text \<open>
  The same threads inside the hashing loop, as the prologue, one pass of the outer loop
  and (for the dual-hash one) a copy loop leave them, with \<open>iCount\<close> at \<open>c\<close>.
\<close>

definition ex_hashing :: "u64 \<Rightarrow> call list work_main_state" where
  "ex_hashing c =
     (ex_work_main (ex_work False))
       \<lparr>glob := (ex_shared (ex_work False))\<lparr>iConsumeCnt := 1\<rparr>, pc := AtInner, iCount := c,
        ctx := Some (ex_ctx 0),
        result := \<lparr>jr_sJobID = ''job'', jr_iNonce = 5, jr_bResult = replicate 32 0xcc\<rparr>\<rparr>"

definition ex_double_hashing :: "u64 \<Rightarrow> call list double_work_state" where
  "ex_double_hashing c =
     (ex_double_work (ex_work False))
       \<lparr>glob := (ex_shared (ex_work False))\<lparr>iConsumeCnt := 1\<rparr>, pc := AtInner, iCount := c,
        ctxs := [Some (ex_ctx 0), Some (ex_ctx 1)],
        bDoubleWorkBlob := replicate 152 0x11 @ replicate 408 0xcc,
        piNonce := [Some 39, Some 115], iNonce := 5\<rparr>"

definition ex_hash_backend :: "call list backend" where
  "ex_hash_backend = ex_backend (replicate 32 0xff)"

text \<open>The consumed count the producer sees at its \<open>j\<close>-th evaluation of the loop condition.\<close>

definition polled :: "nat list \<Rightarrow> shared \<Rightarrow> nat \<Rightarrow> u64" where
  "polled ticks s j = iConsumeCnt s + of_nat (sum_list (take j ticks))"

text \<open>Nonce pointers that are at least four bytes apart from each other.\<close>

fun lanes_apart :: "nat list \<Rightarrow> bool" where
  "lanes_apart [] = True"
| "lanes_apart (off # offs) = ((\<forall>p \<in> set offs. off + 4 \<le> p \<or> p + 4 \<le> off) \<and> lanes_apart offs)"

text \<open>
  The dual-hash thread in its hashing loop on a job with target 1, and a backend whose
  digests are all zeros: both lanes qualify in every round.
\<close>

definition ex_double_emitting :: "call list double_work_state" where
  "ex_double_emitting =
     (ex_double_hashing 0)
       \<lparr>self := (self (ex_double_hashing 0))\<lparr>oWork := (ex_work False)\<lparr>iTarget := 1\<rparr>\<rparr>\<rparr>"

definition ex_zero_backend :: "call list backend" where
  "ex_zero_backend = ex_backend (replicate 32 0)"

subsection \<open>The producer and all workers together\<close>

text \<open>
  The shared state with one entry per worker: whether its thread has run the prologue,
  and its object. A step is the prologue of a thread that has not started, a
  \<open>consume_work\<close> by a started thread that sees a job number other than its own (the only
  place the thread bodies call it from), the producer leaving the wait of \<open>switch_work\<close>
  and installing its work, or anything else a started thread does: it changes its own
  object (statistics, the nonce in its work, \<open>bQuit\<close> set from outside) and keeps its job
  number.
\<close>

type_synonym sys = "shared \<times> (bool \<times> minethd) list"

inductive sys_step :: "sys \<Rightarrow> sys \<Rightarrow> bool" where
  prologue:
    "i < length ths \<Longrightarrow> ths ! i = (False, m) \<Longrightarrow>
     sys_step (g, ths) (g\<lparr>iConsumeCnt := iConsumeCnt g + 1\<rparr>, ths[i := (True, m)])"
| consume:
    "i < length ths \<Longrightarrow> ths ! i = (True, m) \<Longrightarrow> iGlobalJobNo g \<noteq> iJobNo m \<Longrightarrow>
     sys_step (g, ths) (fst (consume_work g m), ths[i := (True, snd (consume_work g m))])"
| publish:
    "switch_work_poll pWork g = Some g' \<Longrightarrow> sys_step (g, ths) (g', ths)"
| other:
    "i < length ths \<Longrightarrow> ths ! i = (True, m) \<Longrightarrow> iJobNo m' = iJobNo m \<Longrightarrow>
     sys_step (g, ths) (g, ths[i := (True, m')])"

text \<open>
  The state \<open>thread_starter\<close> leaves: counters reset, \<open>n\<close> threads constructed and none of
  them started.
\<close>

definition sys_init :: "nat \<Rightarrow> miner_work \<Rightarrow> (nat \<Rightarrow> bool) \<Rightarrow> shared \<Rightarrow> sys" where
  "sys_init n pWork no_prefetch g0 =
     (thread_starter (of_nat n) g0,
      map (\<lambda>i. (False, minethd_ctor pWork i (no_prefetch i))) [0..<n])"

inductive sys_reach :: "nat \<Rightarrow> sys \<Rightarrow> bool" where
  init: "sys_reach n (sys_init n pWork no_prefetch g0)"
| step: "sys_reach n sy \<Longrightarrow> sys_step sy sy' \<Longrightarrow> sys_reach n sy'"

text \<open>The started workers whose job number is the global one.\<close>

definition caught_up :: "shared \<Rightarrow> (bool \<times> minethd) list \<Rightarrow> nat set" where
  "caught_up g ths =
     {i. i < length ths \<and> fst (ths ! i) \<and> iJobNo (snd (ths ! i)) = iGlobalJobNo g}"

text \<open>
  What holds in every state the steps lead to: every worker is at the global job number
  or one behind, nobody is behind while some thread has not started, and the consumed
  count is the number of workers that have caught up.
\<close>

definition sys_inv :: "nat \<Rightarrow> sys \<Rightarrow> bool" where
  "sys_inv n sy =
     (case sy of (g, ths) \<Rightarrow>
        length ths = n \<and> iThreadCount g = of_nat n
        \<and> (\<forall>i < n. iJobNo (snd (ths ! i)) = iGlobalJobNo g
                    \<or> iJobNo (snd (ths ! i)) + 1 = iGlobalJobNo g)
        \<and> ((\<exists>i < n. \<not> fst (ths ! i)) \<longrightarrow> (\<forall>i < n. iJobNo (snd (ths ! i)) = iGlobalJobNo g))
        \<and> iConsumeCnt g = of_nat (card (caught_up g ths)))"

text \<open>
  An example with one worker: the initial state, the state after the worker's prologue,
  and the state after the producer has then installed a job.
\<close>

definition ex_sys_init :: sys where
  "ex_sys_init = sys_init 1 (ex_work True) (\<lambda>_. False) (ex_shared (ex_work True))"

definition ex_sys_started :: sys where
  "ex_sys_started =
     ((ex_shared (ex_work True))\<lparr>iConsumeCnt := 1\<rparr>, [(True, minethd_ctor (ex_work True) 0 False)])"

definition ex_sys_published :: sys where
  "ex_sys_published =
     ((ex_shared (ex_work True))\<lparr>oGlobalWork := ex_work False, iConsumeCnt := 0, iGlobalJobNo := 1\<rparr>,
      [(True, minethd_ctor (ex_work True) 0 False)])"

section \<open>Buffers\<close>

lemma store_bytes_length:
  "off + length bs \<le> length buf \<Longrightarrow> length (store_bytes buf off bs) = length buf"
  by (simp add: store_bytes_def)

lemma take_store_bytes_before:
  "n \<le> off \<Longrightarrow> off \<le> length buf \<Longrightarrow> take n (store_bytes buf off bs) = take n buf"
  by (simp add: store_bytes_def)

lemma take_store_bytes_0:
  "length bs \<le> n \<Longrightarrow> take n (store_bytes buf 0 bs) = bs @ take (n - length bs) (drop (length bs) buf)"
  by (simp add: store_bytes_def)

lemma take_store_bytes_at:
  "off \<le> length buf \<Longrightarrow>
   take (off + length bs) (store_bytes buf off bs) = take off buf @ bs"
  by (simp add: store_bytes_def)

text \<open>A 32-bit store followed by a load at the same place gives the value back.\<close>

lemma le_word_le_bytes32: "le_word (le_bytes32 v) = (v :: u32)"
proof (rule bit_word_eqI)
  fix n :: nat
  assume "n < LENGTH(32)"
  then have n: "n < 32" by simp
  consider "n < 8" | "8 \<le> n" "n < 16" | "16 \<le> n" "n < 24" | "24 \<le> n" "n < 32"
    using n by linarith
  then show "bit (le_word (le_bytes32 v) :: u32) n = bit v n"
    by cases (auto simp: le_word_def le_bytes32_def bit_simps)
qed

text \<open>The test \<open>(iCount & 0x7) == 0\<close> holds for the multiples of 8.\<close>

lemma and_7_iff: "(c :: u64) AND 0x7 = 0 \<longleftrightarrow> unat c mod 8 = 0"
proof -
  have m: "(7 :: u64) = mask 3" by (simp add: mask_eq_exp_minus_1)
  have "c AND mask 3 = 0 \<longleftrightarrow> 2 ^ 3 dvd unat c"
    by (rule and_mask_dvd_nat [symmetric])
  also have "\<dots> \<longleftrightarrow> unat c mod 8 = 0" by (simp add: dvd_eq_mod_eq_0)
  finally show ?thesis unfolding m .
qed

lemma of_nat_and_7_iff: "(of_nat n :: u64) AND 0x7 = 0 \<longleftrightarrow> n mod 8 = 0"
proof -
  have "unat (of_nat n :: u64) mod 8 = (n mod 2 ^ 64) mod 8"
    by (simp add: unat_of_nat)
  also have "\<dots> = n mod 8"
    by (rule mod_mod_cancel) simp
  finally show ?thesis by (simp add: and_7_iff)
qed

lemma read_u32_store_same:
  "off \<le> length buf \<Longrightarrow> read_u32 (store_bytes buf off (le_bytes32 v)) off = v"
proof -
  assume "off \<le> length buf"
  then have "take 4 (drop off (store_bytes buf off (le_bytes32 v))) = le_bytes32 v"
    by (simp add: store_bytes_def le_bytes32_def)
  then show ?thesis by (simp add: read_u32_def le_word_le_bytes32)
qed

text \<open>A store leaves the bytes outside its range, and loads from them, as they were.\<close>

lemma store_bytes_nth_outside:
  assumes "off + length bs \<le> length buf" and "k < length buf" and "k < off \<or> off + length bs \<le> k"
  shows "store_bytes buf off bs ! k = buf ! k"
proof (cases "k < off")
  case True
  with assms show ?thesis by (simp add: store_bytes_def nth_append)
next
  case False
  with assms have k: "off + length bs \<le> k" by simp
  have n1: "\<not> k < min (length buf) off" and n2: "\<not> k - min (length buf) off < length bs"
    and m: "min (length buf) off = off"
    using k assms by auto
  have "store_bytes buf off bs ! k = drop (off + length bs) buf ! (k - off - length bs)"
    unfolding store_bytes_def nth_append using n1 n2 by (simp add: m)
  also have "\<dots> = buf ! k" using k assms by simp
  finally show ?thesis .
qed

lemma read_u32_store_other:
  assumes "off + 4 \<le> off' \<or> off' + 4 \<le> off" and "off + 4 \<le> length buf" and "length bs = 4"
  shows "read_u32 (store_bytes buf off bs) off' = read_u32 buf off'"
proof -
  have len: "length (store_bytes buf off bs) = length buf"
    using assms by (simp add: store_bytes_length)
  have "take 4 (drop off' (store_bytes buf off bs)) = take 4 (drop off' buf)"
  proof (rule nth_equalityI)
    show "length (take 4 (drop off' (store_bytes buf off bs))) = length (take 4 (drop off' buf))"
      by (simp add: len)
  next
    fix i assume "i < length (take 4 (drop off' (store_bytes buf off bs)))"
    then have i4: "i < 4" and il: "off' + i < length buf"
      by (auto simp: len)
    have "store_bytes buf off bs ! (off' + i) = buf ! (off' + i)"
      using assms i4 il by (intro store_bytes_nth_outside) auto
    with i4 il show "take 4 (drop off' (store_bytes buf off bs)) ! i = take 4 (drop off' buf) ! i"
      by (simp add: len)
  qed
  then show ?thesis by (simp add: read_u32_def)
qed

section \<open>Steps and runs of the workers\<close>

subsection \<open>The single-hash worker\<close>

lemma store_stats_fields:
  "oWork (store_stats c t m) = oWork m" "iJobNo (store_stats c t m) = iJobNo m"
  "bQuit (store_stats c t m) = bQuit m" "bNoPrefetchThd (store_stats c t m) = bNoPrefetchThd m"
  "iThreadNo (store_stats c t m) = iThreadNo m"
  by (simp_all add: store_stats_def)

lemma store_stats_snapshot:
  "iHashCount (store_stats c t m) = (if unat c mod 8 = 0 then c else iHashCount m)"
  "iTimestamp (store_stats c t m) = (if unat c mod 8 = 0 then t else iTimestamp m)"
  by (simp_all add: store_stats_def and_7_iff)

lemma store_stats_set_quit:
  "store_stats c t (m\<lparr>bQuit := q\<rparr>) = (store_stats c t m)\<lparr>bQuit := q\<rparr>"
  by (simp add: store_stats_def)

lemma work_inner_body_Inr:
  assumes "ctx st = Some c"
  obtains st' where "work_inner_body bk aes t st = Inr st'"
    and "pc st' = pc st" and "glob st' = glob st" and "ctx st' = ctx st"
    and "iJobNo (self st') = iJobNo (self st)" and "bQuit (self st') = bQuit (self st)"
    and "iCount st' = iCount st + 1"
    and "iHashCount (self st') = (if unat (iCount st) mod 8 = 0 then iCount st else iHashCount (self st))"
    and "iTimestamp (self st') = (if unat (iCount st) mod 8 = 0 then t else iTimestamp (self st))"
    and "jr_iNonce (result st') = jr_iNonce (result st) + 1"
    and "env st' = env st"
  using assms
  by (simp add: work_inner_body_def Let_def store_stats_fields store_stats_snapshot)

lemma work_inner_body_fault:
  "work_inner_body bk aes t st = Inl f \<longleftrightarrow> ctx st = None \<and> f = NullContext"
  by (auto simp: work_inner_body_def Let_def split: option.splits)

lemma work_inner_body_set_quit:
  "work_inner_body bk aes t (st\<lparr>self := (self st)\<lparr>bQuit := q\<rparr>\<rparr>)
     = map_sum id (\<lambda>s. s\<lparr>self := (self s)\<lparr>bQuit := q\<rparr>\<rparr>) (work_inner_body bk aes t st)"
  by (simp add: work_inner_body_def Let_def store_stats_set_quit store_stats_fields split: option.splits)

lemma env_event_keeps:
  "pc (env_event e st) = pc st" "iCount (env_event e st) = iCount st"
  "iJobNo (self (env_event e st)) = iJobNo (self st)"
  "oWork (self (env_event e st)) = oWork (self st)"
  "iHashCount (self (env_event e st)) = iHashCount (self st)"
  "iTimestamp (self (env_event e st)) = iTimestamp (self st)"
  "thread_state.more (env_event e st) = thread_state.more st"
  by (simp_all add: env_event_def switch_work_poll_def split: event.splits)

lemma env_event_job:
  "\<forall>w. e \<noteq> PublishPoll w \<Longrightarrow> iGlobalJobNo (glob (env_event e st)) = iGlobalJobNo (glob st)"
  by (simp add: env_event_def split: event.splits)

lemma env_event_ctx: "ctx (env_event e st) = ctx st"
  by (simp add: env_event_def switch_work_poll_def split: event.splits)

lemma work_main_step_inner:
  assumes "pc st = AtInner" and "iGlobalJobNo (glob st) = iJobNo (self st)"
  shows "work_main_step bk cfg nf t st = work_inner_body bk (HaveHardwareAes cfg) t st"
  using assms by (simp add: work_main_step_def)

text \<open>In the hashing loop, with the job unchanged, events and rounds keep the worker hashing.\<close>

lemma work_main_run_stays_inner:
  assumes "job_unchanged es" and "pc st = AtInner" and "iGlobalJobNo (glob st) = iJobNo (self st)"
    and "ctx st \<noteq> None"
  shows "\<exists>st'. work_main_run bk cfg nf es st = Inr st' \<and> pc st' = AtInner
           \<and> iGlobalJobNo (glob st') = iJobNo (self st')
           \<and> bQuit (self st') = (bQuit (self st) \<or> SetQuit \<in> set es)
           \<and> iCount st' = iCount st + of_nat (length (filter (\<lambda>e. \<exists>t. e = Tick t) es))"
  using assms
proof (induction es arbitrary: st)
  case Nil
  then show ?case by simp
next
  case (Cons e es)
  show ?case
  proof (cases e)
    case (Tick t)
    from Cons.prems obtain c where c: "ctx st = Some c" by auto
    obtain st1 where b: "work_inner_body bk (HaveHardwareAes cfg) t st = Inr st1"
      and k: "pc st1 = pc st" "glob st1 = glob st" "ctx st1 = ctx st"
        "iJobNo (self st1) = iJobNo (self st)" "bQuit (self st1) = bQuit (self st)"
        "iCount st1 = iCount st + 1"
      using work_inner_body_Inr [OF c] by metis
    have step: "work_main_step bk cfg nf t st = Inr st1"
      using Cons.prems b by (simp add: work_main_step_inner)
    have "job_unchanged es" using Cons.prems Tick by simp
    from Cons.IH [OF this, of st1] Cons.prems k
    obtain st' where r: "work_main_run bk cfg nf es st1 = Inr st'" "pc st' = AtInner"
      "iGlobalJobNo (glob st') = iJobNo (self st')"
      "bQuit (self st') = (bQuit (self st1) \<or> SetQuit \<in> set es)"
      "iCount st' = iCount st1 + of_nat (length (filter (\<lambda>e. \<exists>t. e = Tick t) es))"
      by auto
    show ?thesis
      using r k Tick step by simp
  next
    case SetQuit
    have ju: "job_unchanged es" using Cons.prems SetQuit by simp
    have "pc (env_event e st) = AtInner" "iGlobalJobNo (glob (env_event e st)) = iJobNo (self (env_event e st))"
      "ctx (env_event e st) \<noteq> None"
      using Cons.prems SetQuit by (simp_all add: env_event_keeps env_event_job env_event_ctx)
    from Cons.IH [OF ju this]
    obtain st' where r: "work_main_run bk cfg nf es (env_event e st) = Inr st'" "pc st' = AtInner"
      "iGlobalJobNo (glob st') = iJobNo (self st')"
      "bQuit (self st') = (bQuit (self (env_event e st)) \<or> SetQuit \<in> set es)"
      "iCount st' = iCount (env_event e st) + of_nat (length (filter (\<lambda>e. \<exists>t. e = Tick t) es))"
      by auto
    have "bQuit (self (env_event e st))" using SetQuit by (simp add: env_event_def)
    with r SetQuit show ?thesis by (simp add: env_event_keeps)
  next
    case (PublishPoll w)
    with Cons.prems show ?thesis by simp
  next
    case OtherConsumed
    have ju: "job_unchanged es" using Cons.prems OtherConsumed by simp
    have "pc (env_event e st) = AtInner" "iGlobalJobNo (glob (env_event e st)) = iJobNo (self (env_event e st))"
      "ctx (env_event e st) \<noteq> None"
      using Cons.prems OtherConsumed by (simp_all add: env_event_keeps env_event_job env_event_ctx)
    from Cons.IH [OF ju this]
    obtain st' where r: "work_main_run bk cfg nf es (env_event e st) = Inr st'" "pc st' = AtInner"
      "iGlobalJobNo (glob st') = iJobNo (self st')"
      "bQuit (self st') = (bQuit (self (env_event e st)) \<or> SetQuit \<in> set es)"
      "iCount st' = iCount (env_event e st) + of_nat (length (filter (\<lambda>e. \<exists>t. e = Tick t) es))"
      by auto
    have "bQuit (self (env_event e st)) = bQuit (self st)" using OtherConsumed by (simp add: env_event_def)
    with r OtherConsumed show ?thesis by (simp add: env_event_keeps)
  qed
qed

lemma work_main_step_set_quit:
  assumes "pc st \<noteq> AtOuter"
  shows "work_main_step bk cfg nf t (st\<lparr>self := (self st)\<lparr>bQuit := q\<rparr>\<rparr>)
     = map_sum id (\<lambda>s. s\<lparr>self := (self s)\<lparr>bQuit := q\<rparr>\<rparr>) (work_main_step bk cfg nf t st)"
  using assms
  by (cases "pc st")
     (auto simp: work_main_step_def work_inner_body_set_quit consume_work_def split: prod.splits)

lemma work_main_step_outer_quit:
  assumes "pc st = AtOuter" and "bQuit (self st)"
  shows "\<exists>st'. work_main_step bk cfg nf t st = Inr st' \<and> pc st' = AtExit"
  using assms by (simp add: work_main_step_def)

subsection \<open>The dual-hash worker\<close>

lemma write_nonces_no_fault:
  "\<forall>p \<in> set ps. p \<noteq> None \<Longrightarrow>
   \<exists>blob'. write_nonces ps v blob = Inr (v + of_nat (length ps), blob')"
proof (induction ps arbitrary: v blob)
  case Nil
  then show ?case by simp
next
  case (Cons p ps)
  then obtain off where p: "p = Some off" by auto
  from Cons.IH [of "v + 1" "store_bytes blob off (le_bytes32 (v + 1))"] Cons.prems
  obtain blob' where "write_nonces ps (v + 1) (store_bytes blob off (le_bytes32 (v + 1)))
                        = Inr (v + 1 + of_nat (length ps), blob')" by auto
  then show ?case using p by (simp add: add.assoc add.commute)
qed

lemma double_inner_body_Inr:
  assumes "\<forall>p \<in> set (take hashes (piNonce st)). p \<noteq> None" and "those (ctxs st) = Some cs"
  obtains st' where "double_inner_body bk t st = Inr st'"
    and "pc st' = pc st" and "glob st' = glob st" and "ctxs st' = ctxs st"
    and "piNonce st' = piNonce st"
    and "iJobNo (self st') = iJobNo (self st)" and "bQuit (self st') = bQuit (self st)"
    and "iCount st' = iCount st + of_nat hashes"
proof -
  from write_nonces_no_fault [OF assms(1), of "iNonce st" "bDoubleWorkBlob st"]
  obtain blob' where "write_nonces (take hashes (piNonce st)) (iNonce st) (bDoubleWorkBlob st)
      = Inr (iNonce st + of_nat (length (take hashes (piNonce st))), blob')" by blast
  then show ?thesis
    using assms(2) that
    by (simp add: double_inner_body_def Let_def store_stats_fields)
qed

lemma double_inner_body_set_quit:
  "double_inner_body bk t (st\<lparr>self := (self st)\<lparr>bQuit := q\<rparr>\<rparr>)
     = map_sum id (\<lambda>s. s\<lparr>self := (self s)\<lparr>bQuit := q\<rparr>\<rparr>) (double_inner_body bk t st)"
  by (simp add: double_inner_body_def Let_def store_stats_set_quit store_stats_fields
      split: option.splits sum.splits prod.splits)

lemma double_work_step_inner:
  assumes "pc st = AtInner" and "iGlobalJobNo (glob st) = iJobNo (self st)"
  shows "double_work_step bk cfg nf t st = double_inner_body bk t st"
  using assms by (simp add: double_work_step_def)

lemma env_event_lanes:
  "piNonce (env_event e st) = piNonce st" "ctxs (env_event e st) = ctxs st"
  by (simp_all add: env_event_def switch_work_poll_def split: event.splits)

lemma double_work_run_stays_inner:
  assumes "job_unchanged es" and "pc st = AtInner" and "iGlobalJobNo (glob st) = iJobNo (self st)"
    and "\<forall>p \<in> set (take hashes (piNonce st)). p \<noteq> None" and "those (ctxs st) \<noteq> None"
  shows "\<exists>st'. double_work_run bk cfg nf es st = Inr st' \<and> pc st' = AtInner
           \<and> iGlobalJobNo (glob st') = iJobNo (self st')
           \<and> bQuit (self st') = (bQuit (self st) \<or> SetQuit \<in> set es)"
  using assms
proof (induction es arbitrary: st)
  case Nil
  then show ?case by simp
next
  case (Cons e es)
  show ?case
  proof (cases "\<exists>t. e = Tick t")
    case True
    then obtain t where Tick: "e = Tick t" by blast
    from Cons.prems obtain cs where c: "those (ctxs st) = Some cs" by auto
    obtain st1 where b: "double_inner_body bk t st = Inr st1"
      and k: "pc st1 = pc st" "glob st1 = glob st" "ctxs st1 = ctxs st" "piNonce st1 = piNonce st"
        "iJobNo (self st1) = iJobNo (self st)" "bQuit (self st1) = bQuit (self st)"
      using double_inner_body_Inr [OF Cons.prems(4) c] by metis
    have step: "double_work_step bk cfg nf t st = Inr st1"
      using Cons.prems b by (simp add: double_work_step_inner)
    have "job_unchanged es" using Cons.prems Tick by simp
    from Cons.IH [OF this, of st1] Cons.prems k
    obtain st' where r: "double_work_run bk cfg nf es st1 = Inr st'" "pc st' = AtInner"
      "iGlobalJobNo (glob st') = iJobNo (self st')"
      "bQuit (self st') = (bQuit (self st1) \<or> SetQuit \<in> set es)"
      by auto
    show ?thesis
      using r k Tick step by simp
  next
    case False
    then have nt: "\<And>t. e \<noteq> Tick t" by blast
    have np: "\<forall>w. e \<noteq> PublishPoll w" using Cons.prems(1) by (cases e) simp_all
    have ju: "job_unchanged es" using Cons.prems(1) by (cases e) simp_all
    have run: "double_work_run bk cfg nf (e # es) st = double_work_run bk cfg nf es (env_event e st)"
      using False by (cases e) auto
    have "pc (env_event e st) = AtInner"
      "iGlobalJobNo (glob (env_event e st)) = iJobNo (self (env_event e st))"
      "\<forall>p \<in> set (take hashes (piNonce (env_event e st))). p \<noteq> None"
      "those (ctxs (env_event e st)) \<noteq> None"
      using Cons.prems np by (simp_all add: env_event_keeps env_event_job env_event_lanes)
    from Cons.IH [OF ju this]
    obtain st' where r: "double_work_run bk cfg nf es (env_event e st) = Inr st'" "pc st' = AtInner"
      "iGlobalJobNo (glob st') = iJobNo (self st')"
      "bQuit (self st') = (bQuit (self (env_event e st)) \<or> SetQuit \<in> set es)"
      by auto
    have "bQuit (self (env_event e st)) = (bQuit (self st) \<or> e = SetQuit)"
      using np nt by (cases e) (simp_all add: env_event_def)
    with r run show ?thesis by auto
  qed
qed

lemma upt_hashes: "[0..<hashes] = [0, 1]"
  by (simp add: hashes_def upt_rec)

lemma resync_after_stall_eq:
  "resync_after_stall st =
     st\<lparr>bDoubleWorkBlob := copy_lane (oWork (self st)) 1
                              (copy_lane (oWork (self st)) 0 (bDoubleWorkBlob st)),
        piNonce := (piNonce st)[0 := Some (lane_off (oWork (self st)) 0 + 39),
                                1 := Some (lane_off (oWork (self st)) 1 + 39)]\<rparr>"
  by (simp add: resync_after_stall_def upt_hashes)

lemma resync_after_job_eq:
  "resync_after_job st =
     st\<lparr>bDoubleWorkBlob := copy_lane (oWork (self st)) 1
                              (copy_lane (oWork (self st)) 0 (bDoubleWorkBlob st)),
        piNonce := (piNonce st)[1 := Some (lane_off (oWork (self st)) 1 + 39)]\<rparr>"
  by (simp add: resync_after_job_def upt_hashes)

lemma double_work_step_set_quit:
  assumes "pc st \<noteq> AtOuter"
  shows "double_work_step bk cfg nf t (st\<lparr>self := (self st)\<lparr>bQuit := q\<rparr>\<rparr>)
     = map_sum id (\<lambda>s. s\<lparr>self := (self s)\<lparr>bQuit := q\<rparr>\<rparr>) (double_work_step bk cfg nf t st)"
  using assms
  by (cases "pc st")
     (auto simp: double_work_step_def double_inner_body_set_quit consume_work_def
        resync_after_stall_eq resync_after_job_eq split: prod.splits)

section \<open>The handoff among all threads\<close>

lemma caught_up_subset: "caught_up g ths \<subseteq> {..<length ths}"
  by (auto simp: caught_up_def)

lemma caught_up_finite: "finite (caught_up g ths)"
  using caught_up_subset finite_subset by blast

lemma caught_up_card_le: "card (caught_up g ths) \<le> length ths"
  using card_mono [of "{..<length ths}" "caught_up g ths"] caught_up_subset [of g ths] by simp

lemma sys_inv_init: "sys_inv n (sys_init n pWork no_prefetch g0)"
proof -
  let ?ths = "map (\<lambda>i. (False, minethd_ctor pWork i (no_prefetch i))) [0..<n]"
  have "caught_up (thread_starter (of_nat n) g0) ?ths = {}"
    by (auto simp: caught_up_def)
  then show ?thesis
    by (simp add: sys_inv_def sys_init_def thread_starter_def minethd_ctor_def)
qed

lemma caught_up_insert:
  assumes "i < length ths" and "iJobNo m' = iGlobalJobNo g'" and "iGlobalJobNo g' = iGlobalJobNo g"
    and "i \<notin> caught_up g ths"
  shows "caught_up g' (ths[i := (True, m')]) = insert i (caught_up g ths)"
  using assms by (auto simp: caught_up_def nth_list_update)

text \<open>Each kind of step keeps the invariant.\<close>

lemma sys_inv_prologue:
  assumes inv: "sys_inv n (g, ths)" and i: "i < length ths" "ths ! i = (False, m)"
  shows "sys_inv n (g\<lparr>iConsumeCnt := iConsumeCnt g + 1\<rparr>, ths[i := (True, m)])"
proof -
  let ?g = "g\<lparr>iConsumeCnt := iConsumeCnt g + 1\<rparr>" and ?ths = "ths[i := (True, m)]"
  from inv have len: "length ths = n" and tc: "iThreadCount g = of_nat n"
    and near: "\<forall>j < n. iJobNo (snd (ths ! j)) = iGlobalJobNo g \<or> iJobNo (snd (ths ! j)) + 1 = iGlobalJobNo g"
    and early: "(\<exists>j < n. \<not> fst (ths ! j)) \<longrightarrow> (\<forall>j < n. iJobNo (snd (ths ! j)) = iGlobalJobNo g)"
    and cnt: "iConsumeCnt g = of_nat (card (caught_up g ths))"
    by (simp_all add: sys_inv_def)
  have all: "\<forall>j < n. iJobNo (snd (ths ! j)) = iGlobalJobNo g"
    using early i len by force
  have snd_same: "snd (?ths ! j) = snd (ths ! j)" for j
    using i by (cases "j = i") simp_all
  have notin: "i \<notin> caught_up g ths" using i by (simp add: caught_up_def)
  have "iJobNo m = iGlobalJobNo g" using all i len by force
  then have cu: "caught_up ?g ?ths = insert i (caught_up g ths)"
    using caught_up_insert [OF i(1) _ _ notin, of m ?g] by simp
  have "card (caught_up ?g ?ths) = Suc (card (caught_up g ths))"
    unfolding cu using notin caught_up_finite by simp
  then have "iConsumeCnt ?g = of_nat (card (caught_up ?g ?ths))"
    using cnt by simp
  then show ?thesis
    using len tc all by (auto simp: sys_inv_def snd_same)
qed

lemma sys_inv_consume:
  assumes inv: "sys_inv n (g, ths)" and i: "i < length ths" "ths ! i = (True, m)"
    and ne: "iGlobalJobNo g \<noteq> iJobNo m"
  shows "sys_inv n (fst (consume_work g m), ths[i := (True, snd (consume_work g m))])"
    and "iJobNo (snd (consume_work g m)) = iGlobalJobNo (fst (consume_work g m))"
proof -
  let ?g = "fst (consume_work g m)" and ?m = "snd (consume_work g m)"
  let ?ths = "ths[i := (True, ?m)]"
  from inv have len: "length ths = n" and tc: "iThreadCount g = of_nat n"
    and near: "\<forall>j < n. iJobNo (snd (ths ! j)) = iGlobalJobNo g \<or> iJobNo (snd (ths ! j)) + 1 = iGlobalJobNo g"
    and early: "(\<exists>j < n. \<not> fst (ths ! j)) \<longrightarrow> (\<forall>j < n. iJobNo (snd (ths ! j)) = iGlobalJobNo g)"
    and cnt: "iConsumeCnt g = of_nat (card (caught_up g ths))"
    by (simp_all add: sys_inv_def)
  have behind: "iJobNo m + 1 = iGlobalJobNo g"
    using near i ne len by force
  have g: "iGlobalJobNo ?g = iGlobalJobNo g" "iThreadCount ?g = iThreadCount g"
    "iConsumeCnt ?g = iConsumeCnt g + 1"
    and m: "iJobNo ?m = iGlobalJobNo g"
    using behind by (simp_all add: consume_work_def)
  show "iJobNo ?m = iGlobalJobNo ?g" using g m by simp
  have started: "\<forall>j < n. fst (ths ! j)"
  proof (rule ccontr)
    assume "\<not> (\<forall>j < n. fst (ths ! j))"
    with early have "\<forall>j < n. iJobNo (snd (ths ! j)) = iGlobalJobNo g" by blast
    with i len ne show False by force
  qed
  have notin: "i \<notin> caught_up g ths" using i ne by (auto simp: caught_up_def)
  have cu: "caught_up ?g ?ths = insert i (caught_up g ths)"
    using caught_up_insert [OF i(1) _ _ notin, of ?m ?g] g m by simp
  have "card (caught_up ?g ?ths) = Suc (card (caught_up g ths))"
    unfolding cu using notin caught_up_finite by simp
  then have c: "iConsumeCnt ?g = of_nat (card (caught_up ?g ?ths))"
    using cnt g by simp
  have near': "\<forall>j < n. iJobNo (snd (?ths ! j)) = iGlobalJobNo ?g
                     \<or> iJobNo (snd (?ths ! j)) + 1 = iGlobalJobNo ?g"
    using near i len g m by (auto simp: nth_list_update)
  have started': "\<forall>j < n. fst (?ths ! j)"
    using started i len by (auto simp: nth_list_update)
  show "sys_inv n (?g, ?ths)"
    unfolding sys_inv_def prod.case
  proof (intro conjI)
    show "length ?ths = n" using len by simp
    show "iThreadCount ?g = of_nat n" using tc g by simp
    show "\<forall>j < n. iJobNo (snd (?ths ! j)) = iGlobalJobNo ?g
                     \<or> iJobNo (snd (?ths ! j)) + 1 = iGlobalJobNo ?g" by (rule near')
    show "(\<exists>j < n. \<not> fst (?ths ! j)) \<longrightarrow> (\<forall>j < n. iJobNo (snd (?ths ! j)) = iGlobalJobNo ?g)"
      using started' by blast
    show "iConsumeCnt ?g = of_nat (card (caught_up ?g ?ths))" by (rule c)
  qed
qed

text \<open>
  The producer leaves its wait only when every worker has caught up: the consumed count
  then equals the thread count.
\<close>

lemma sys_inv_publish_count:
  assumes inv: "sys_inv n (g, ths)" and n: "n < 2 ^ 64"
    and p: "switch_work_poll pWork g = Some g'"
  shows "iConsumeCnt g = iThreadCount g" and "caught_up g ths = {..<n}"
proof -
  from inv have len: "length ths = n" and tc: "iThreadCount g = of_nat n"
    and cnt: "iConsumeCnt g = of_nat (card (caught_up g ths))"
    by (simp_all add: sys_inv_def)
  let ?c = "card (caught_up g ths)"
  have cle: "?c \<le> n" using caught_up_card_le [of g ths] len by simp
  from p have "\<not> iConsumeCnt g < iThreadCount g"
    by (simp add: switch_work_poll_def split: if_splits)
  then have "\<not> (of_nat ?c :: u64) < of_nat n" using cnt tc by simp
  then have "\<not> ?c < n"
    using cle n by (simp add: word_less_nat_alt unat_of_nat)
  with cle have ceq: "?c = n" by simp
  then show "iConsumeCnt g = iThreadCount g" using cnt tc by simp
  show "caught_up g ths = {..<n}"
    using card_subset_eq [of "{..<n}" "caught_up g ths"] caught_up_subset [of g ths] len ceq
    by simp
qed

lemma sys_inv_publish:
  assumes inv: "sys_inv n (g, ths)" and n: "n < 2 ^ 64"
    and p: "switch_work_poll pWork g = Some g'"
  shows "sys_inv n (g', ths)"
proof -
  from inv have len: "length ths = n" and tc: "iThreadCount g = of_nat n"
    by (simp_all add: sys_inv_def)
  from p have g': "g' = g\<lparr>oGlobalWork := pWork, iConsumeCnt := 0, iGlobalJobNo := iGlobalJobNo g + 1\<rparr>"
    by (simp add: switch_work_poll_def split: if_splits)
  have all: "\<forall>j < n. fst (ths ! j) \<and> iJobNo (snd (ths ! j)) = iGlobalJobNo g"
    using sys_inv_publish_count(2) [OF inv n p] len by (auto simp: caught_up_def)
  have ne: "iGlobalJobNo g + 1 \<noteq> iGlobalJobNo g" by simp
  have "caught_up g' ths = {}"
    using all len ne by (auto simp: caught_up_def g')
  then show ?thesis
    using len tc all by (auto simp: sys_inv_def g')
qed

lemma sys_inv_other:
  assumes inv: "sys_inv n (g, ths)" and i: "i < length ths" "ths ! i = (True, m)"
    and same: "iJobNo m' = iJobNo m"
  shows "sys_inv n (g, ths[i := (True, m')])"
proof -
  let ?ths = "ths[i := (True, m')]"
  have j: "iJobNo (snd (?ths ! j)) = iJobNo (snd (ths ! j))" "fst (?ths ! j) = fst (ths ! j)"
    if "j < length ths" for j
    using i same that by (cases "j = i"; simp)+
  then have "caught_up g ?ths = caught_up g ths"
    by (auto simp: caught_up_def)
  with inv j show ?thesis
    by (auto simp: sys_inv_def)
qed

lemma sys_inv_step:
  assumes "sys_step sy sy'" and "sys_inv n sy" and "n < 2 ^ 64"
  shows "sys_inv n sy'"
  using assms
proof (cases rule: sys_step.cases)
  case (prologue i ths m g)
  with assms show ?thesis using sys_inv_prologue by blast
next
  case (consume i ths m g)
  with assms show ?thesis using sys_inv_consume(1) by blast
next
  case (publish pWork g g' ths)
  with assms show ?thesis using sys_inv_publish by blast
next
  case (other i ths m m' g)
  with assms show ?thesis using sys_inv_other by blast
qed

lemma sys_reach_inv:
  assumes "sys_reach n sy" and "n < 2 ^ 64"
  shows "sys_inv n sy"
  using assms
  by (induction rule: sys_reach.induct) (auto intro: sys_inv_init sys_inv_step)

section \<open>Telemetry: the rate computation\<close>

text \<open>With a mask below the capacity, every slot the walk reads lies inside the buffer.\<close>

lemma slot_idx_in_range:
  assumes "unat iBucketMask < iBucketSize"
  shows "slot_idx iBucketMask iTop i < iBucketSize"
proof -
  have "(ucast iTop - of_nat i) AND iBucketMask \<le> iBucketMask"
    by (rule word_and_le1)
  then have "unat ((ucast iTop - of_nat i) AND iBucketMask) \<le> unat iBucketMask"
    by (simp add: word_le_nat_alt)
  with assms show ?thesis by (simp add: slot_idx_def)
qed

text \<open>
  Once the latest anchor is set, the loop only moves the earliest anchor over the samples
  inside the window, and sets \<open>bHaveFullSet\<close> when the first sample outside the window is
  a written one.
\<close>

lemma calc_walk_latest_set:
  "iLastestStamp w \<noteq> 0 \<Longrightarrow>
   calc_walk m ts hc tp now win js w =
     (let S = map (sample_at m ts hc tp) js;
          inw = takeWhile (in_window now win) S;
          rest = dropWhile (in_window now win) S;
          w1 = (if inw = [] then w
                else w\<lparr>iEarliestStamp := fst (last inw), iEarliestHashCnt := snd (last inw)\<rparr>)
      in if rest = [] \<or> fst (hd rest) = 0 then w1 else w1\<lparr>bHaveFullSet := True\<rparr>)"
proof (induction js arbitrary: w)
  case Nil
  then show ?case by simp
next
  case (Cons j js)
  have fs: "fst (sample_at m ts hc tp j) = ts ! slot_idx m tp j"
    and sn: "snd (sample_at m ts hc tp j) = hc ! slot_idx m tp j"
    by (simp_all add: sample_at_def)
  show ?case
  proof (cases "in_window now win (sample_at m ts hc tp j)")
    case True
    let ?w = "w\<lparr>iEarliestStamp := ts ! slot_idx m tp j, iEarliestHashCnt := hc ! slot_idx m tp j\<rparr>"
    have l: "iLastestStamp ?w \<noteq> 0" using Cons.prems by simp
    have step: "calc_walk m ts hc tp now win (j # js) w = calc_walk m ts hc tp now win js ?w"
      using True Cons.prems by (simp add: in_window_def sample_at_def Let_def)
    show ?thesis
      unfolding step Cons.IH [OF l]
      using True by (simp add: Let_def fs sn)
  next
    case False
    from False have "ts ! slot_idx m tp j = 0 \<or> now - ts ! slot_idx m tp j > win"
      by (auto simp: in_window_def fs)
    then show ?thesis using Cons.prems False
      by (auto simp: Let_def fs)
  qed
qed

text \<open>The whole walk, from the initial values of the locals.\<close>

lemma calc_walk_init:
  "calc_walk m ts hc tp now win js walk_init =
     (let S = map (sample_at m ts hc tp) js;
          inw = takeWhile (in_window now win) S;
          rest = dropWhile (in_window now win) S
      in if inw = [] then
           (if rest = [] \<or> fst (hd rest) = 0 then walk_init
            else walk_init\<lparr>iLastestStamp := fst (hd rest), iLastestHashCnt := snd (hd rest),
                            bHaveFullSet := True\<rparr>)
         else
           \<lparr>iEarliestHashCnt = snd (last inw), iEarliestStamp = fst (last inw),
            iLastestStamp = fst (hd inw), iLastestHashCnt = snd (hd inw),
            bHaveFullSet = (rest \<noteq> [] \<and> fst (hd rest) \<noteq> 0)\<rparr>)"
proof (cases js)
  case Nil
  then show ?thesis by simp
next
  case (Cons j js')
  have fs: "fst (sample_at m ts hc tp j) = ts ! slot_idx m tp j"
    and sn: "snd (sample_at m ts hc tp j) = hc ! slot_idx m tp j"
    by (simp_all add: sample_at_def)
  show ?thesis
  proof (cases "in_window now win (sample_at m ts hc tp j)")
    case True
    let ?w = "walk_init\<lparr>iLastestStamp := ts ! slot_idx m tp j, iLastestHashCnt := hc ! slot_idx m tp j,
                iEarliestStamp := ts ! slot_idx m tp j, iEarliestHashCnt := hc ! slot_idx m tp j\<rparr>"
    have nz: "ts ! slot_idx m tp j \<noteq> 0" using True by (simp add: in_window_def fs)
    have l: "iLastestStamp ?w \<noteq> 0" using nz by simp
    have step: "calc_walk m ts hc tp now win (j # js') walk_init = calc_walk m ts hc tp now win js' ?w"
      using True by (simp add: in_window_def fs Let_def walk_init_def)
    show ?thesis
      unfolding Cons step calc_walk_latest_set [OF l]
      using True by (simp add: Let_def fs sn walk_init_def)
  next
    case False
    from False have "ts ! slot_idx m tp j = 0 \<or> now - ts ! slot_idx m tp j > win"
      by (auto simp: in_window_def fs)
    then show ?thesis using False Cons
      by (auto simp: Let_def fs sn walk_init_def)
  qed
qed

lemma in_window_takeWhile_ends:
  assumes "xs = takeWhile (in_window iTimeNow iLastMilisec) S" and "xs \<noteq> []"
  shows "fst (hd xs) \<noteq> 0" and "fst (last xs) \<noteq> 0"
proof -
  have "in_window iTimeNow iLastMilisec x" if "x \<in> set xs" for x
    using that assms(1) by (auto dest: set_takeWhileD)
  with assms(2) show "fst (hd xs) \<noteq> 0" and "fst (last xs) \<noteq> 0"
    by (auto simp: in_window_def dest: hd_in_set last_in_set)
qed

text \<open>
  Claim C3, as the code has it. Let \<open>S\<close> be the samples in walk order (most recent slot
  first), \<open>inw\<close> its longest prefix of written samples inside the window, and \<open>rest\<close> what
  follows. The result is NaN when the walk runs through the whole capacity without leaving
  the window (\<open>rest = []\<close>), when it reaches an unwritten slot first, when the most recent
  sample is itself older than the window (no earliest anchor is ever set), and when the
  two anchors carry the same timestamp. Otherwise the anchors are the first and the last
  sample of \<open>inw\<close>, and the result is the difference of their hash counts (modulo
  \<open>2^64\<close>) divided by the difference of their timestamps in seconds.
\<close>

theorem calc_telemetry_data_cases:
  "calc_telemetry_data iBucketSize iBucketMask iTimeNow t iLastMilisec iThread =
     (let S = walk_samples iBucketSize iBucketMask t iThread;
          inw = takeWhile (in_window iTimeNow iLastMilisec) S;
          rest = dropWhile (in_window iTimeNow iLastMilisec) S
      in if rest = [] then None
         else if fst (hd rest) = 0 then None
         else if inw = [] then None
         else if fst (hd inw) = fst (last inw) then None
         else Some (real (unat (snd (hd inw) - snd (last inw)))
                    / (real (unat (fst (hd inw) - fst (last inw))) / 1000)))"
  unfolding calc_telemetry_data_def telemetry_walk_def calc_walk_init walk_samples_def
  using in_window_takeWhile_ends
  by (simp add: Let_def calc_result_def walk_init_def)

text \<open>
  The theorem at the four-sample buffer, read at time 1000 with a window of 500: the
  anchors are the samples stamped 900 and 700, eight hashes in 0.2 seconds.
\<close>

theorem calc_telemetry_data_cases_witness:
  "calc_telemetry_data 8 7 1000 tele_four 500 0 = Some 40"
proof -
  have rhs: "(let S = walk_samples 8 7 tele_four 0;
          inw = takeWhile (in_window 1000 500) S;
          rest = dropWhile (in_window 1000 500) S
      in if rest = [] then None
         else if fst (hd rest) = 0 then None
         else if inw = [] then None
         else if fst (hd inw) = fst (last inw) then None
         else Some (real (unat (snd (hd inw) - snd (last inw)))
                    / (real (unat (fst (hd inw) - fst (last inw))) / 1000))) = Some 40"
    by code_simp
  show ?thesis
    by (simp only: calc_telemetry_data_cases [of 8 7 1000 tele_four 500 0] rhs)
qed

text \<open>
  The claim as the specification words it fails: with one sample stamped 100, read at
  time 1000 with a window of 10, the walk stops in its first round on a sample older than
  the window (it does not run out of capacity), the latest anchor is 100 and the earliest
  is still unset, so the two differ, and the result is NaN all the same. With four samples
  read with a window of 5000, the walk takes all four and stops at the fifth of seven
  slots, which is unwritten: the capacity is not used up, the anchors are 900 and 100, and
  the result is NaN again.
\<close>

theorem calc_telemetry_data_counterexample:
  "hd (walk_samples 8 7 tele_one 0) = (100, 5)
   \<and> bHaveFullSet (telemetry_walk 8 7 1000 tele_one 10 0)
   \<and> iLastestStamp (telemetry_walk 8 7 1000 tele_one 10 0)
       \<noteq> iEarliestStamp (telemetry_walk 8 7 1000 tele_one 10 0)
   \<and> calc_telemetry_data 8 7 1000 tele_one 10 0 = None
   \<and> length (walk_samples 8 7 tele_four 0) = 7
   \<and> takeWhile (in_window 1000 5000) (walk_samples 8 7 tele_four 0)
       = [(900, 29), (700, 21), (300, 13), (100, 5)]
   \<and> iLastestStamp (telemetry_walk 8 7 1000 tele_four 5000 0) = 900
   \<and> iEarliestStamp (telemetry_walk 8 7 1000 tele_four 5000 0) = 100
   \<and> calc_telemetry_data 8 7 1000 tele_four 5000 0 = None"
  by code_simp

section \<open>Telemetry: the constructor\<close>

text \<open>
  Both \<open>memset\<close> calls of the loop clear row 0, whatever \<open>i\<close> is: the rows of every other
  thread keep what the allocator handed out.
\<close>

lemma telemetry_ctor_body_length:
  "length (ppTimestamps (telemetry_ctor_body bsz junkH junkT i t)) = length (ppTimestamps t)"
  "length (ppHashCounts (telemetry_ctor_body bsz junkH junkT i t)) = length (ppHashCounts t)"
  by (simp_all add: telemetry_ctor_body_def memset0_def Let_def)

lemma telemetry_ctor_body_own_row:
  assumes "0 < i" and "i < length (ppTimestamps t)" and "i < length (ppHashCounts t)"
  shows "ppTimestamps (telemetry_ctor_body bsz junkH junkT i t) ! i = new_u64_array (junkT i) bsz"
    and "ppHashCounts (telemetry_ctor_body bsz junkH junkT i t) ! i = new_u64_array (junkH i) bsz"
  using assms by (simp_all add: telemetry_ctor_body_def memset0_def Let_def)

lemma telemetry_ctor_body_other_row:
  assumes "0 < j" and "j \<noteq> i"
  shows "ppTimestamps (telemetry_ctor_body bsz junkH junkT i t) ! j = ppTimestamps t ! j"
    and "ppHashCounts (telemetry_ctor_body bsz junkH junkT i t) ! j = ppHashCounts t ! j"
  using assms by (simp_all add: telemetry_ctor_body_def memset0_def Let_def)

lemma telemetry_ctor_fold_length:
  "length (ppTimestamps (fold (telemetry_ctor_body bsz junkH junkT) [0..<k] t))
     = length (ppTimestamps t)
   \<and> length (ppHashCounts (fold (telemetry_ctor_body bsz junkH junkT) [0..<k] t))
     = length (ppHashCounts t)"
  by (induction k) (simp_all add: telemetry_ctor_body_length)

lemma telemetry_ctor_fold_rows:
  "n \<le> length (ppTimestamps t) \<Longrightarrow> n \<le> length (ppHashCounts t) \<Longrightarrow>
   0 < i \<Longrightarrow> i < n \<Longrightarrow>
   ppTimestamps (fold (telemetry_ctor_body bsz junkH junkT) [0..<n] t) ! i
     = new_u64_array (junkT i) bsz
   \<and> ppHashCounts (fold (telemetry_ctor_body bsz junkH junkT) [0..<n] t) ! i
     = new_u64_array (junkH i) bsz"
proof (induction n)
  case 0
  then show ?case by simp
next
  case (Suc n)
  let ?t = "fold (telemetry_ctor_body bsz junkH junkT) [0..<n] t"
  have unf: "fold (telemetry_ctor_body bsz junkH junkT) [0..<Suc n] t
               = telemetry_ctor_body bsz junkH junkT n ?t"
    by simp
  show ?case
  proof (cases "i = n")
    case True
    have "i < length (ppTimestamps ?t)" "i < length (ppHashCounts ?t)"
      using Suc.prems True telemetry_ctor_fold_length [of bsz junkH junkT n t] by simp_all
    with Suc.prems(3) show ?thesis
      unfolding unf True [symmetric] by (simp add: telemetry_ctor_body_own_row)
  next
    case False
    with Suc.prems have "i < n" by simp
    with Suc.IH Suc.prems have ih:
      "ppTimestamps ?t ! i = new_u64_array (junkT i) bsz"
      "ppHashCounts ?t ! i = new_u64_array (junkH i) bsz" by simp_all
    with Suc.prems(3) False show ?thesis
      unfolding unf by (simp add: telemetry_ctor_body_other_row)
  qed
qed

text \<open>The constructor: rows other than row 0 hold the allocator's content.\<close>

lemma telemetry_ctor_rows:
  assumes "0 < i" and "i < iThd"
  shows "ppTimestamps (telemetry_ctor bsz junkH junkT junkTop iThd) ! i = new_u64_array (junkT i) bsz"
    and "ppHashCounts (telemetry_ctor bsz junkH junkT junkTop iThd) ! i = new_u64_array (junkH i) bsz"
  using assms telemetry_ctor_fold_rows [of iThd _ i bsz junkH junkT]
  by (simp_all add: telemetry_ctor_def)

text \<open>
  Claim C4 fails on the code. For every thread but thread 0 the constructor leaves both
  arrays as allocated; here, for two threads and a heap full of sevens and fives, the
  timestamps of thread 1 are all 7, not 0, while those of thread 0 are cleared. Pushing
  nothing, a rate read for thread 1 at time 1000 then walks over the seven unwritten slots
  as if they were samples inside a window of 2000.
\<close>

theorem telemetry_ctor_row_1_not_cleared:
  "ppTimestamps (telemetry_ctor 8 (\<lambda>_ _. 5) (\<lambda>_ _. 7) (\<lambda>_. 0) 2) ! 0 = replicate 8 0
   \<and> ppTimestamps (telemetry_ctor 8 (\<lambda>_ _. 5) (\<lambda>_ _. 7) (\<lambda>_. 0) 2) ! 1 = replicate 8 7
   \<and> ppHashCounts (telemetry_ctor 8 (\<lambda>_ _. 5) (\<lambda>_ _. 7) (\<lambda>_. 0) 2) ! 1 = replicate 8 5
   \<and> takeWhile (in_window 1000 2000)
        (walk_samples 8 7 (telemetry_ctor 8 (\<lambda>_ _. 5) (\<lambda>_ _. 7) (\<lambda>_. 0) 2) 1)
       = replicate 7 (7, 5)"
  by code_simp

section \<open>The memory policy of \<open>minethd_alloc_ctx\<close>\<close>

text \<open>
  Claim C7. When the locked allocation fails under \<open>print_warning\<close>, the warning the
  allocator reported (if it reported one) is printed and the result is that of a second,
  ordinary allocation \<open>cryptonight_alloc_ctx(0, 0, NULL)\<close>. Under \<open>never_use\<close> and \<open>no_mlck\<close>
  a failed allocation is printed and null is returned; the world is the one right after
  the failed call, so no second allocation is made.
\<close>

theorem minethd_alloc_ctx_policy:
  "(alloc_ctx bk 1 1 w = ((None, warning), w1) \<longrightarrow>
      minethd_alloc_ctx bk print_warning w =
        (let w2 = (case warning of None \<Rightarrow> w1
                   | Some _ \<Rightarrow> print_msg (MEMORY_ALLOC_FAILED warning) w1)
         in (fst (fst (alloc_ctx bk 0 0 w2)), snd (alloc_ctx bk 0 0 w2))))
   \<and> (alloc_ctx bk 1 1 w = ((None, warning), w1) \<longrightarrow>
      minethd_alloc_ctx bk never_use w = (None, print_msg (MEMORY_ALLOC_FAILED warning) w1))
   \<and> (alloc_ctx bk 1 0 w = ((None, warning), w1) \<longrightarrow>
      minethd_alloc_ctx bk no_mlck w = (None, print_msg (MEMORY_ALLOC_FAILED warning) w1))"
  by (auto simp: Let_def split: prod.splits option.splits)

text \<open>
  The theorem at the example backend, whose heap lists the calls made: one failed locked
  call and one ordinary call under \<open>print_warning\<close>, a single failed call under the other
  two.
\<close>

theorem minethd_alloc_ctx_policy_witness:
  "minethd_alloc_ctx (ex_backend []) print_warning ex_world
     = (Some (ex_ctx 1), \<lparr>heap = [Alloc 1 1, Alloc 0 0],
                           printed = [MEMORY_ALLOC_FAILED (Some ''mmap failed'')]\<rparr>)
   \<and> minethd_alloc_ctx (ex_backend []) never_use ex_world
     = (None, \<lparr>heap = [Alloc 1 1], printed = [MEMORY_ALLOC_FAILED (Some ''mmap failed'')]\<rparr>)
   \<and> minethd_alloc_ctx (ex_backend []) no_mlck ex_world
     = (None, \<lparr>heap = [Alloc 1 0], printed = [MEMORY_ALLOC_FAILED (Some ''mmap failed'')]\<rparr>)"
proof -
  have a11: "alloc_ctx (ex_backend []) 1 1 ex_world
               = ((None, Some ''mmap failed''), \<lparr>heap = [Alloc 1 1], printed = []\<rparr>)"
    and a10: "alloc_ctx (ex_backend []) 1 0 ex_world
               = ((None, Some ''mmap failed''), \<lparr>heap = [Alloc 1 0], printed = []\<rparr>)"
    by (simp_all add: alloc_ctx_def ex_backend_def ex_alloc_def ex_world_def)
  have a00: "alloc_ctx (ex_backend []) 0 0
               \<lparr>heap = [Alloc 1 1], printed = [MEMORY_ALLOC_FAILED (Some ''mmap failed'')]\<rparr>
             = ((Some (ex_ctx 1), None),
                \<lparr>heap = [Alloc 1 1, Alloc 0 0],
                 printed = [MEMORY_ALLOC_FAILED (Some ''mmap failed'')]\<rparr>)"
    by (simp add: alloc_ctx_def ex_backend_def ex_alloc_def ex_ctx_def)
  show ?thesis
    using minethd_alloc_ctx_policy [of "ex_backend []" ex_world "Some ''mmap failed''"
        "\<lparr>heap = [Alloc 1 1], printed = []\<rparr>"]
      minethd_alloc_ctx_policy [of "ex_backend []" ex_world "Some ''mmap failed''"
        "\<lparr>heap = [Alloc 1 0], printed = []\<rparr>"]
      a11 a10 a00
    by (simp add: print_msg_def)
qed

section \<open>The self test\<close>

text \<open>Later writes of the loop land at offset 64 or beyond and leave the first 64 bytes.\<close>

lemma results_fold_prefix:
  assumes "length d = 32" and "length r = 256" and "\<forall>z \<in> set zs. 2 \<le> z \<and> z < 8"
  shows "take 64 (fold (\<lambda>z r. store_bytes r (32 * z) d) zs r) = take 64 r
         \<and> length (fold (\<lambda>z r. store_bytes r (32 * z) d) zs r) = 256"
  using assms
proof (induction zs arbitrary: r)
  case Nil
  then show ?case by simp
next
  case (Cons z zs)
  have z: "2 \<le> z" "z < 8" using Cons.prems by simp_all
  have len: "length (store_bytes r (32 * z) d) = 256"
    using z Cons.prems by (simp add: store_bytes_length)
  have pre: "take 64 (store_bytes r (32 * z) d) = take 64 r"
    using z Cons.prems by (simp add: take_store_bytes_before)
  from Cons.IH [OF Cons.prems(1) len] Cons.prems(3) pre show ?case by simp
qed

lemma results_first_two:
  assumes "length a = 32" and "length d = 32" and "length results0 = 256"
  shows "take 64 (fold (\<lambda>z r. store_bytes r (32 * z) d) [1..<7] (store_bytes results0 0 a)) = a @ d"
proof -
  let ?r1 = "store_bytes results0 0 a"
  let ?r2 = "store_bytes ?r1 32 d"
  have l1: "length ?r1 = 256" using assms by (simp add: store_bytes_length)
  have l2: "length ?r2 = 256" using assms l1 by (simp add: store_bytes_length)
  have upt: "[1..<7] = 1 # [2..<7]" by (simp add: upt_rec)
  have f: "fold (\<lambda>z r. store_bytes r (32 * z) d) [1..<7] ?r1
             = fold (\<lambda>z r. store_bytes r (32 * z) d) [2..<7] ?r2"
    unfolding upt by simp
  have a: "take 32 ?r1 = a"
    using take_store_bytes_0 [of a 32 results0] assms by simp
  have "take 64 (fold (\<lambda>z r. store_bytes r (32 * z) d) [2..<7] ?r2) = take 64 ?r2"
    using results_fold_prefix [OF assms(2) l2, of "[2..<7]"] by simp
  also have "\<dots> = take 32 ?r1 @ d"
    using take_store_bytes_at [of 32 ?r1 d] l1 assms by simp
  finally show ?thesis unfolding f a .
qed


lemma alloc_ctx_ignores_hash_ctx:
  "alloc_ctx (bk\<lparr>cryptonight_hash_ctx := f\<rparr>) = alloc_ctx bk"
  by (intro ext) (simp add: alloc_ctx_def)

lemma free_ctx_ignores_hash_ctx:
  "free_ctx (bk\<lparr>cryptonight_hash_ctx := f\<rparr>) = free_ctx bk"
  by (intro ext) (simp add: free_ctx_def)

lemma minethd_alloc_ctx_ignores_hash_ctx:
  "minethd_alloc_ctx (bk\<lparr>cryptonight_hash_ctx := f\<rparr>) = minethd_alloc_ctx bk"
proof (intro ext)
  fix pol and w :: "'a world"
  show "minethd_alloc_ctx (bk\<lparr>cryptonight_hash_ctx := f\<rparr>) pol w = minethd_alloc_ctx bk pol w"
    by (cases pol) (simp_all only: minethd_alloc_ctx.simps alloc_ctx_ignores_hash_ctx)
qed

lemma self_test_init_ignores_hash_ctx:
  "self_test_init (bk\<lparr>cryptonight_hash_ctx := f\<rparr>) = self_test_init bk"
proof (intro ext)
  fix pol and w :: "'a world"
  show "self_test_init (bk\<lparr>cryptonight_hash_ctx := f\<rparr>) pol w = self_test_init bk pol w"
    by (cases pol) simp_all
qed

lemma self_test_hashes_ignores_hash_ctx:
  "self_test_hashes (bk\<lparr>cryptonight_hash_ctx := f\<rparr>) = self_test_hashes bk"
  by (intro ext) (simp add: self_test_hashes_def)

lemma self_test_ignores_hash_ctx:
  "self_test (bk\<lparr>cryptonight_hash_ctx := f\<rparr>) cfg out0 results0 w0 = self_test bk cfg out0 results0 w0"
  unfolding self_test_def self_test_setup_def self_test_hashes_ignores_hash_ctx
    free_ctx_ignores_hash_ctx minethd_alloc_ctx_ignores_hash_ctx self_test_init_ignores_hash_ctx
  by (rule refl)

lemma self_test_hashes_aes:
  assumes bufs: "length results0 = 256"
    and np: "length (cryptonight_hash_ctx_np bk (bytes_of ''nada'') 4 ctx0) = 32"
            "length (cryptonight_hash_ctx_np bk (bytes_of ''nado'') 4 ctx0) = 32"
    and dbl: "length (cryptonight_double_hash_ctx bk (bytes_of ''nadanadonadonadonadonadonadonado'') 4
                [ctx0, ctx1, ctx2, ctx3, ctx4, ctx4, ctx4, ctx4]) = 64"
  shows "self_test_hashes bk True ctx0 ctx1 ctx2 ctx3 ctx4 out0 results0 =
     (cryptonight_double_hash_ctx bk (bytes_of ''nadanadonadonadonadonadonadonado'') 4
             [ctx0, ctx1, ctx2, ctx3, ctx4, ctx4, ctx4, ctx4]
           = cryptonight_hash_ctx_np bk (bytes_of ''nada'') 4 ctx0
             @ cryptonight_hash_ctx_np bk (bytes_of ''nado'') 4 ctx0)"
proof -
  have "take 64 (store_bytes out0 0 (cryptonight_double_hash_ctx bk
           (bytes_of ''nadanadonadonadonadonadonadonado'') 4
           [ctx0, ctx1, ctx2, ctx3, ctx4, ctx4, ctx4, ctx4]))
        = cryptonight_double_hash_ctx bk (bytes_of ''nadanadonadonadonadonadonadonado'') 4
           [ctx0, ctx1, ctx2, ctx3, ctx4, ctx4, ctx4, ctx4]"
    using dbl by (simp add: take_store_bytes_0)
  with results_first_two [OF np bufs] show ?thesis
    by (simp add: self_test_hashes_def Let_def memcmp_eq_def)
qed

lemma self_test_hashes_soft:
  assumes soft: "length (cryptonight_hash_ctx_soft bk (bytes_of ''This is a test'') 14 ctx0) = 32"
  shows "self_test_hashes bk False ctx0 ctx1 ctx2 ctx3 ctx4 out0 results0 =
     (cryptonight_hash_ctx_soft bk (bytes_of ''This is a test'') 14 ctx0 = expected_soft_digest)"
proof -
  have "take 32 (store_bytes out0 0 (cryptonight_hash_ctx_soft bk (bytes_of ''This is a test'') 14 ctx0))
        = cryptonight_hash_ctx_soft bk (bytes_of ''This is a test'') 14 ctx0"
    using soft by (simp add: take_store_bytes_0)
  then show ?thesis
    by (simp add: self_test_hashes_def Let_def memcmp_eq_def expected_soft_digest_def)
qed

lemma self_test_after_setup:
  "self_test_setup bk cfg w0 = Inr (ctx0, ctx1, ctx2, ctx3, ctx4, w7) \<Longrightarrow>
   fst (self_test bk cfg out0 results0 w0)
     = self_test_hashes bk (HaveHardwareAes cfg) ctx0 ctx1 ctx2 ctx3 ctx4 out0 results0"
  by (simp add: self_test_def Let_def)

text \<open>
  Claim C2, as the code has it. A failed setup (init, the five allocations, the check of
  the thread configurations) fails the self test. After a successful setup, on a machine
  without hardware AES the self test passes exactly when the software hash of the 14 bytes
  "This is a test" is the fixed 32-byte digest. On a machine with hardware AES no fixed
  digest is involved: the self test passes exactly when the batched hash of
  "nadanado..." (lanes of length 4) equals the no-prefetch hashes of "nada" and "nado" put
  side by side, a cross-check of two variants of the same backend. The plain hardware
  variant \<open>cryptonight_hash_ctx\<close> is never run: replacing it changes nothing.
\<close>

theorem self_test_verdict:
  "(self_test_setup bk cfg w0 = Inl w \<longrightarrow> self_test bk cfg out0 results0 w0 = (False, w))
   \<and> (self_test_setup bk cfg w0 = Inr (ctx0, ctx1, ctx2, ctx3, ctx4, w7)
        \<and> \<not> HaveHardwareAes cfg
        \<and> length (cryptonight_hash_ctx_soft bk (bytes_of ''This is a test'') 14 ctx0) = 32
      \<longrightarrow> fst (self_test bk cfg out0 results0 w0)
          = (cryptonight_hash_ctx_soft bk (bytes_of ''This is a test'') 14 ctx0
               = expected_soft_digest))
   \<and> (self_test_setup bk cfg w0 = Inr (ctx0, ctx1, ctx2, ctx3, ctx4, w7)
        \<and> HaveHardwareAes cfg
        \<and> length results0 = 256
        \<and> length (cryptonight_hash_ctx_np bk (bytes_of ''nada'') 4 ctx0) = 32
        \<and> length (cryptonight_hash_ctx_np bk (bytes_of ''nado'') 4 ctx0) = 32
        \<and> length (cryptonight_double_hash_ctx bk (bytes_of ''nadanadonadonadonadonadonadonado'') 4
                    [ctx0, ctx1, ctx2, ctx3, ctx4, ctx4, ctx4, ctx4]) = 64
      \<longrightarrow> fst (self_test bk cfg out0 results0 w0)
          = (cryptonight_double_hash_ctx bk (bytes_of ''nadanadonadonadonadonadonadonado'') 4
               [ctx0, ctx1, ctx2, ctx3, ctx4, ctx4, ctx4, ctx4]
             = cryptonight_hash_ctx_np bk (bytes_of ''nada'') 4 ctx0
               @ cryptonight_hash_ctx_np bk (bytes_of ''nado'') 4 ctx0))
   \<and> self_test (bk\<lparr>cryptonight_hash_ctx := f\<rparr>) cfg out0 results0 w0
       = self_test bk cfg out0 results0 w0"
proof (intro conjI impI)
  assume "self_test_setup bk cfg w0 = Inl w"
  then show "self_test bk cfg out0 results0 w0 = (False, w)"
    by (simp add: self_test_def)
next
  assume a: "self_test_setup bk cfg w0 = Inr (ctx0, ctx1, ctx2, ctx3, ctx4, w7)
        \<and> \<not> HaveHardwareAes cfg
        \<and> length (cryptonight_hash_ctx_soft bk (bytes_of ''This is a test'') 14 ctx0) = 32"
  then show "fst (self_test bk cfg out0 results0 w0)
          = (cryptonight_hash_ctx_soft bk (bytes_of ''This is a test'') 14 ctx0
               = expected_soft_digest)"
    using self_test_after_setup [of bk cfg w0 ctx0 ctx1 ctx2 ctx3 ctx4 w7 out0 results0]
      self_test_hashes_soft [of bk ctx0 ctx1 ctx2 ctx3 ctx4 out0 results0]
    by simp
next
  assume a: "self_test_setup bk cfg w0 = Inr (ctx0, ctx1, ctx2, ctx3, ctx4, w7)
        \<and> HaveHardwareAes cfg
        \<and> length results0 = 256
        \<and> length (cryptonight_hash_ctx_np bk (bytes_of ''nada'') 4 ctx0) = 32
        \<and> length (cryptonight_hash_ctx_np bk (bytes_of ''nado'') 4 ctx0) = 32
        \<and> length (cryptonight_double_hash_ctx bk (bytes_of ''nadanadonadonadonadonadonadonado'') 4
                    [ctx0, ctx1, ctx2, ctx3, ctx4, ctx4, ctx4, ctx4]) = 64"
  then show "fst (self_test bk cfg out0 results0 w0)
          = (cryptonight_double_hash_ctx bk (bytes_of ''nadanadonadonadonadonadonadonado'') 4
               [ctx0, ctx1, ctx2, ctx3, ctx4, ctx4, ctx4, ctx4]
             = cryptonight_hash_ctx_np bk (bytes_of ''nada'') 4 ctx0
               @ cryptonight_hash_ctx_np bk (bytes_of ''nado'') 4 ctx0)"
    using self_test_after_setup [of bk cfg w0 ctx0 ctx1 ctx2 ctx3 ctx4 w7 out0 results0]
      self_test_hashes_aes [of results0 bk ctx0 ctx1 ctx2 ctx3 ctx4 out0]
    by simp
next
  show "self_test (bk\<lparr>cryptonight_hash_ctx := f\<rparr>) cfg out0 results0 w0
       = self_test bk cfg out0 results0 w0"
    by (rule self_test_ignores_hash_ctx)
qed

lemma ex_setup:
  "self_test_setup (ex_backend d) (ex_jconf always_use aes) ex_world
     = Inr (ex_ctx 1, ex_ctx 2, ex_ctx 3, ex_ctx 4, ex_ctx 5,
            \<lparr>heap = [Init 0 0, Alloc 0 0, Alloc 0 0, Alloc 0 0, Alloc 0 0, Alloc 0 0], printed = []\<rparr>)"
  by (simp add: self_test_setup_def ex_backend_def ex_jconf_def ex_world_def ex_alloc_def
      alloc_ctx_def ex_ctx_def Let_def)

text \<open>
  The theorem at the example backends: the software path accepts the expected digest and
  rejects zeros, the hardware path accepts zeros, and a failed allocation under
  \<open>never_use\<close> fails the setup.
\<close>

theorem self_test_verdict_witness:
  "fst (self_test (ex_backend expected_soft_digest) (ex_jconf always_use False)
         (replicate 256 0xcc) (replicate 256 0xcc) ex_world)
   \<and> \<not> fst (self_test (ex_backend (replicate 32 0)) (ex_jconf always_use False)
         (replicate 256 0xcc) (replicate 256 0xcc) ex_world)
   \<and> fst (self_test (ex_backend (replicate 32 0)) (ex_jconf always_use True)
         (replicate 256 0xcc) (replicate 256 0xcc) ex_world)
   \<and> self_test (ex_backend (replicate 32 0)) (ex_jconf never_use True)
         (replicate 256 0xcc) (replicate 256 0xcc) ex_world
       = (False, \<lparr>heap = [Init 1 1, Alloc 1 1],
                  printed = [MEMORY_ALLOC_FAILED (Some ''mmap failed'')]\<rparr>)"
proof -
  let ?J = "replicate 256 (0xcc :: u8)"
  let ?w = "\<lparr>heap = [Init 0 0, Alloc 0 0, Alloc 0 0, Alloc 0 0, Alloc 0 0, Alloc 0 0],
             printed = ([] :: message list)\<rparr>"
  have fail: "self_test_setup (ex_backend (replicate 32 0)) (ex_jconf never_use True) ex_world
     = Inl \<lparr>heap = [Init 1 1, Alloc 1 1], printed = [MEMORY_ALLOC_FAILED (Some ''mmap failed'')]\<rparr>"
    by (simp add: self_test_setup_def ex_backend_def ex_jconf_def ex_world_def ex_alloc_def
      alloc_ctx_def Let_def print_msg_def)
  have l: "length (cryptonight_hash_ctx_soft (ex_backend d) i n c) = length d"
    "length (cryptonight_hash_ctx_np (ex_backend d) i n c) = length d"
    "length (cryptonight_double_hash_ctx (ex_backend d) i n cs) = 2 * length d"
    "cryptonight_hash_ctx_soft (ex_backend d) i n c = d"
    "cryptonight_hash_ctx_np (ex_backend d) i n c = d"
    "cryptonight_double_hash_ctx (ex_backend d) i n cs = d @ d"
    for d i n c cs
    by (simp_all add: ex_backend_def)
  have aes: "HaveHardwareAes (ex_jconf always_use True)" "\<not> HaveHardwareAes (ex_jconf always_use False)"
    by (simp_all add: ex_jconf_def)
  have z: "replicate 32 (0::u8) \<noteq> expected_soft_digest"
    by code_simp
  have 1: "fst (self_test (ex_backend expected_soft_digest) (ex_jconf always_use False) ?J ?J ex_world)"
    using self_test_verdict [of "ex_backend expected_soft_digest" "ex_jconf always_use False"
        ex_world _ ?J ?J "ex_ctx 1" "ex_ctx 2" "ex_ctx 3" "ex_ctx 4" "ex_ctx 5" ?w]
      ex_setup aes
    by (simp add: l expected_soft_digest_def)
  have 2: "\<not> fst (self_test (ex_backend (replicate 32 0)) (ex_jconf always_use False) ?J ?J ex_world)"
    using self_test_verdict [of "ex_backend (replicate 32 0)" "ex_jconf always_use False"
        ex_world _ ?J ?J "ex_ctx 1" "ex_ctx 2" "ex_ctx 3" "ex_ctx 4" "ex_ctx 5" ?w]
      ex_setup aes z
    by (simp add: l)
  have 3: "fst (self_test (ex_backend (replicate 32 0)) (ex_jconf always_use True) ?J ?J ex_world)"
    using self_test_verdict [of "ex_backend (replicate 32 0)" "ex_jconf always_use True"
        ex_world _ ?J ?J "ex_ctx 1" "ex_ctx 2" "ex_ctx 3" "ex_ctx 4" "ex_ctx 5" ?w]
      ex_setup aes
    by (simp add: l)
  have 4: "self_test (ex_backend (replicate 32 0)) (ex_jconf never_use True) ?J ?J ex_world
       = (False, \<lparr>heap = [Init 1 1, Alloc 1 1],
                  printed = [MEMORY_ALLOC_FAILED (Some ''mmap failed'')]\<rparr>)"
    using self_test_verdict [of "ex_backend (replicate 32 0)" "ex_jconf never_use True"
        ex_world "\<lparr>heap = [Init 1 1, Alloc 1 1],
                  printed = [MEMORY_ALLOC_FAILED (Some ''mmap failed'')]\<rparr>" ?J ?J] fail
    by simp
  from 1 2 3 4 show ?thesis by simp
qed

text \<open>
  The claim as the specification words it fails on a machine with hardware AES: two
  backends that answer the same inputs with different digests (all zeros, all ones) both
  pass, so the outputs are not compared with any expected digest; the first one also
  answers "This is a test" with zeros instead of the reference digest.
\<close>

theorem self_test_counterexample:
  "fst (self_test (ex_backend (replicate 32 0)) (ex_jconf always_use True)
         (replicate 256 0xcc) (replicate 256 0xcc) ex_world)
   \<and> fst (self_test (ex_backend (replicate 32 1)) (ex_jconf always_use True)
         (replicate 256 0xcc) (replicate 256 0xcc) ex_world)
   \<and> cryptonight_hash_ctx_np (ex_backend (replicate 32 0)) (bytes_of ''nada'') 4 (ex_ctx 1)
       \<noteq> cryptonight_hash_ctx_np (ex_backend (replicate 32 1)) (bytes_of ''nada'') 4 (ex_ctx 1)
   \<and> cryptonight_double_hash_ctx (ex_backend (replicate 32 0))
         (bytes_of ''nadanadonadonadonadonadonadonado'') 4
         [ex_ctx 1, ex_ctx 2, ex_ctx 3, ex_ctx 4, ex_ctx 5, ex_ctx 5, ex_ctx 5, ex_ctx 5]
       \<noteq> cryptonight_double_hash_ctx (ex_backend (replicate 32 1))
         (bytes_of ''nadanadonadonadonadonadonadonado'') 4
         [ex_ctx 1, ex_ctx 2, ex_ctx 3, ex_ctx 4, ex_ctx 5, ex_ctx 5, ex_ctx 5, ex_ctx 5]
   \<and> cryptonight_hash_ctx (ex_backend (replicate 32 0)) (bytes_of ''This is a test'') 14 (ex_ctx 1)
       \<noteq> expected_soft_digest"
  by code_simp

section \<open>The hashing loops: statistics and cancellation\<close>

lemma job_unchanged_ticks: "job_unchanged (map Tick ts)"
  by (induction ts) simp_all

lemma count_ticks: "length (filter (\<lambda>e. \<exists>t. e = Tick t) (map Tick ts)) = length ts"
  by (induction ts) simp_all

text \<open>
  Claim C9. A round of the hashing loop of \<open>work_main\<close> that starts with the iteration
  count \<open>iCount\<close> stores that count and the clock reading into \<open>iHashCount\<close> and
  \<open>iTimestamp\<close> when the count is a multiple of 8, and leaves both as they are otherwise;
  it adds one to the count. So in a run of rounds the round number \<open>k\<close> (from 0) starts with
  the count \<open>iCount + k\<close>.
\<close>

theorem work_main_stats_every_8th:
  assumes "pc st = AtInner" and "iGlobalJobNo (glob st) = iJobNo (self st)" and "ctx st \<noteq> None"
  shows "(\<exists>st'. work_main_step bk cfg nf iStamp st = Inr st'
            \<and> iCount st' = iCount st + 1
            \<and> (iHashCount (self st'), iTimestamp (self st'))
                = (if unat (iCount st) mod 8 = 0 then (iCount st, iStamp)
                   else (iHashCount (self st), iTimestamp (self st))))
       \<and> (\<exists>stk. work_main_run bk cfg nf (map Tick ts) st = Inr stk
            \<and> pc stk = AtInner \<and> iGlobalJobNo (glob stk) = iJobNo (self stk)
            \<and> iCount stk = iCount st + of_nat (length ts))"
proof
  from assms(3) obtain c where c: "ctx st = Some c" by auto
  obtain st' where "work_inner_body bk (HaveHardwareAes cfg) iStamp st = Inr st'"
    and "iCount st' = iCount st + 1"
    and "iHashCount (self st') = (if unat (iCount st) mod 8 = 0 then iCount st else iHashCount (self st))"
    and "iTimestamp (self st') = (if unat (iCount st) mod 8 = 0 then iStamp else iTimestamp (self st))"
    using work_inner_body_Inr [OF c] by metis
  then show "\<exists>st'. work_main_step bk cfg nf iStamp st = Inr st'
            \<and> iCount st' = iCount st + 1
            \<and> (iHashCount (self st'), iTimestamp (self st'))
                = (if unat (iCount st) mod 8 = 0 then (iCount st, iStamp)
                   else (iHashCount (self st), iTimestamp (self st)))"
    using assms by (simp add: work_main_step_inner)
next
  show "\<exists>stk. work_main_run bk cfg nf (map Tick ts) st = Inr stk
            \<and> pc stk = AtInner \<and> iGlobalJobNo (glob stk) = iJobNo (self stk)
            \<and> iCount stk = iCount st + of_nat (length ts)"
    using work_main_run_stays_inner [OF job_unchanged_ticks assms, where bk = bk and cfg = cfg and nf = nf and ts1 = ts]
    by (auto simp: count_ticks)
qed

lemma ex_hashing_simps:
  "pc (ex_hashing c) = AtInner" "iGlobalJobNo (glob (ex_hashing c)) = iJobNo (self (ex_hashing c))"
  "ctx (ex_hashing c) \<noteq> None" "iCount (ex_hashing c) = c"
  "iHashCount (self (ex_hashing c)) = 0" "iTimestamp (self (ex_hashing c)) = 0"
  "bQuit (self (ex_hashing c)) = False"
  by (simp_all add: ex_hashing_def ex_work_main_def ex_shared_def thread_starter_def minethd_ctor_def)

text \<open>The theorem at counts 16 and 17, with the clock at 777, and for three rounds from 16.\<close>

theorem work_main_stats_every_8th_witness:
  "(\<exists>st'. work_main_step ex_hash_backend ex_cfg ex_nonce_fns 777 (ex_hashing 16) = Inr st'
       \<and> iCount st' = 17 \<and> (iHashCount (self st'), iTimestamp (self st')) = (16, 777))
   \<and> (\<exists>st'. work_main_step ex_hash_backend ex_cfg ex_nonce_fns 777 (ex_hashing 17) = Inr st'
       \<and> iCount st' = 18 \<and> (iHashCount (self st'), iTimestamp (self st')) = (0, 0))
   \<and> (\<exists>stk. work_main_run ex_hash_backend ex_cfg ex_nonce_fns [Tick 1, Tick 2, Tick 3]
               (ex_hashing 16) = Inr stk
       \<and> pc stk = AtInner \<and> iCount stk = 19)"
  using work_main_stats_every_8th [where st = "ex_hashing 16" and bk = ex_hash_backend and cfg = ex_cfg
        and nf = ex_nonce_fns and iStamp = 777 and ts = "[1, 2, 3]"]
    work_main_stats_every_8th [where st = "ex_hashing 17" and bk = ex_hash_backend and cfg = ex_cfg
        and nf = ex_nonce_fns and iStamp = 777 and ts = "[]"]
  by (simp add: ex_hashing_simps, blast)

lemma ex_double_hashing_simps:
  "pc (ex_double_hashing c) = AtInner"
  "iGlobalJobNo (glob (ex_double_hashing c)) = iJobNo (self (ex_double_hashing c))"
  "take hashes (piNonce (ex_double_hashing c)) = [Some 39, Some 115]"
  "those (ctxs (ex_double_hashing c)) = Some [ex_ctx 0, ex_ctx 1]"
  "bQuit (self (ex_double_hashing c)) = False" "iNonce (ex_double_hashing c) = 5"
  "length (bDoubleWorkBlob (ex_double_hashing c)) = 560"
  by (simp_all add: ex_double_hashing_def ex_double_work_def ex_shared_def thread_starter_def
      minethd_ctor_def hashes_def)

text \<open>
  Claim C8. While the global job number equals the worker's, whatever happens around the
  worker short of a new job (rounds, \<open>bQuit\<close> being set, other workers consuming) leaves
  it in its hashing loop, with \<open>bQuit\<close> set if it was set on the way; this holds for both
  thread bodies. A step taken anywhere but at the outer loop's condition (in the prologue,
  in the stall loop, in the hashing loop) does the same for either value of \<open>bQuit\<close>. The
  flag is read at the outer loop's condition, where it ends the thread.
\<close>

theorem quit_checked_at_outer_loop_only:
  assumes "job_unchanged es"
  shows
   "(pc st = AtInner \<and> iGlobalJobNo (glob st) = iJobNo (self st) \<and> ctx st \<noteq> None \<longrightarrow>
       (\<exists>st'. work_main_run bk cfg nf es st = Inr st' \<and> pc st' = AtInner
               \<and> bQuit (self st') = (bQuit (self st) \<or> SetQuit \<in> set es)))
    \<and> (pc dst = AtInner \<and> iGlobalJobNo (glob dst) = iJobNo (self dst)
        \<and> (\<forall>p \<in> set (take hashes (piNonce dst)). p \<noteq> None) \<and> those (ctxs dst) \<noteq> None \<longrightarrow>
       (\<exists>dst'. double_work_run bk cfg nf es dst = Inr dst' \<and> pc dst' = AtInner
               \<and> bQuit (self dst') = (bQuit (self dst) \<or> SetQuit \<in> set es)))
    \<and> (pc st \<noteq> AtOuter \<longrightarrow>
         work_main_step bk cfg nf t (st\<lparr>self := (self st)\<lparr>bQuit := q\<rparr>\<rparr>)
           = map_sum id (\<lambda>s. s\<lparr>self := (self s)\<lparr>bQuit := q\<rparr>\<rparr>) (work_main_step bk cfg nf t st))
    \<and> (pc dst \<noteq> AtOuter \<longrightarrow>
         double_work_step bk cfg nf t (dst\<lparr>self := (self dst)\<lparr>bQuit := q\<rparr>\<rparr>)
           = map_sum id (\<lambda>s. s\<lparr>self := (self s)\<lparr>bQuit := q\<rparr>\<rparr>) (double_work_step bk cfg nf t dst))
    \<and> (pc st = AtOuter \<and> bQuit (self st) \<longrightarrow>
         (\<exists>st'. work_main_step bk cfg nf t st = Inr st' \<and> pc st' = AtExit))
    \<and> (pc dst = AtOuter \<and> bQuit (self dst) \<longrightarrow>
         (\<exists>dst'. double_work_step bk cfg nf t dst = Inr dst' \<and> pc dst' = AtExit))"
proof (intro conjI impI)
  assume "pc st = AtInner \<and> iGlobalJobNo (glob st) = iJobNo (self st) \<and> ctx st \<noteq> None"
  then show "\<exists>st'. work_main_run bk cfg nf es st = Inr st' \<and> pc st' = AtInner
               \<and> bQuit (self st') = (bQuit (self st) \<or> SetQuit \<in> set es)"
    using work_main_run_stays_inner [OF assms, where st = st and bk = bk and cfg = cfg and nf = nf] by blast
next
  assume "pc dst = AtInner \<and> iGlobalJobNo (glob dst) = iJobNo (self dst)
        \<and> (\<forall>p \<in> set (take hashes (piNonce dst)). p \<noteq> None) \<and> those (ctxs dst) \<noteq> None"
  then show "\<exists>dst'. double_work_run bk cfg nf es dst = Inr dst' \<and> pc dst' = AtInner
               \<and> bQuit (self dst') = (bQuit (self dst) \<or> SetQuit \<in> set es)"
    using double_work_run_stays_inner [OF assms, where st = dst and bk = bk and cfg = cfg and nf = nf] by blast
next
  assume "pc st \<noteq> AtOuter"
  then show "work_main_step bk cfg nf t (st\<lparr>self := (self st)\<lparr>bQuit := q\<rparr>\<rparr>)
           = map_sum id (\<lambda>s. s\<lparr>self := (self s)\<lparr>bQuit := q\<rparr>\<rparr>) (work_main_step bk cfg nf t st)"
    by (rule work_main_step_set_quit)
next
  assume "pc dst \<noteq> AtOuter"
  then show "double_work_step bk cfg nf t (dst\<lparr>self := (self dst)\<lparr>bQuit := q\<rparr>\<rparr>)
           = map_sum id (\<lambda>s. s\<lparr>self := (self s)\<lparr>bQuit := q\<rparr>\<rparr>) (double_work_step bk cfg nf t dst)"
    by (rule double_work_step_set_quit)
next
  assume "pc st = AtOuter \<and> bQuit (self st)"
  then show "\<exists>st'. work_main_step bk cfg nf t st = Inr st' \<and> pc st' = AtExit"
    by (simp add: work_main_step_def)
next
  assume "pc dst = AtOuter \<and> bQuit (self dst)"
  then show "\<exists>dst'. double_work_step bk cfg nf t dst = Inr dst' \<and> pc dst' = AtExit"
    by (simp add: double_work_step_def)
qed

text \<open>The theorem at the example threads, with \<open>bQuit\<close> set after the first round.\<close>

theorem quit_checked_at_outer_loop_only_witness:
  "(\<exists>st'. work_main_run ex_hash_backend ex_cfg ex_nonce_fns [Tick 1, SetQuit, Tick 2, Tick 3]
             (ex_hashing 0) = Inr st' \<and> pc st' = AtInner \<and> bQuit (self st'))
   \<and> (\<exists>dst'. double_work_run ex_hash_backend ex_cfg ex_nonce_fns [Tick 1, SetQuit, Tick 2, Tick 3]
             (ex_double_hashing 0) = Inr dst' \<and> pc dst' = AtInner \<and> bQuit (self dst'))
   \<and> work_main_step ex_hash_backend ex_cfg ex_nonce_fns 4
         ((ex_hashing 0)\<lparr>self := (self (ex_hashing 0))\<lparr>bQuit := True\<rparr>\<rparr>)
       = map_sum id (\<lambda>s. s\<lparr>self := (self s)\<lparr>bQuit := True\<rparr>\<rparr>)
           (work_main_step ex_hash_backend ex_cfg ex_nonce_fns 4 (ex_hashing 0))
   \<and> double_work_step ex_hash_backend ex_cfg ex_nonce_fns 4
         ((ex_double_hashing 0)\<lparr>self := (self (ex_double_hashing 0))\<lparr>bQuit := True\<rparr>\<rparr>)
       = map_sum id (\<lambda>s. s\<lparr>self := (self s)\<lparr>bQuit := True\<rparr>\<rparr>)
           (double_work_step ex_hash_backend ex_cfg ex_nonce_fns 4 (ex_double_hashing 0))
   \<and> (\<exists>st'. work_main_step ex_hash_backend ex_cfg ex_nonce_fns 4
               ((ex_hashing 0)\<lparr>self := (self (ex_hashing 0))\<lparr>bQuit := True\<rparr>, pc := AtOuter\<rparr>)
             = Inr st' \<and> pc st' = AtExit)
   \<and> (\<exists>dst'. double_work_step ex_hash_backend ex_cfg ex_nonce_fns 4
               ((ex_double_hashing 0)\<lparr>self := (self (ex_double_hashing 0))\<lparr>bQuit := True\<rparr>,
                                       pc := AtOuter\<rparr>)
             = Inr dst' \<and> pc dst' = AtExit)"
proof -
  have ju: "job_unchanged [Tick 1, SetQuit, Tick 2, Tick 3]" by simp
  let ?q = "(ex_hashing 0)\<lparr>self := (self (ex_hashing 0))\<lparr>bQuit := True\<rparr>, pc := AtOuter\<rparr>"
  let ?dq = "(ex_double_hashing 0)\<lparr>self := (self (ex_double_hashing 0))\<lparr>bQuit := True\<rparr>,
                                    pc := AtOuter\<rparr>"
  have runs: "(\<exists>st'. work_main_run ex_hash_backend ex_cfg ex_nonce_fns [Tick 1, SetQuit, Tick 2, Tick 3]
             (ex_hashing 0) = Inr st' \<and> pc st' = AtInner \<and> bQuit (self st'))
   \<and> (\<exists>dst'. double_work_run ex_hash_backend ex_cfg ex_nonce_fns [Tick 1, SetQuit, Tick 2, Tick 3]
             (ex_double_hashing 0) = Inr dst' \<and> pc dst' = AtInner \<and> bQuit (self dst'))
   \<and> work_main_step ex_hash_backend ex_cfg ex_nonce_fns 4
         ((ex_hashing 0)\<lparr>self := (self (ex_hashing 0))\<lparr>bQuit := True\<rparr>\<rparr>)
       = map_sum id (\<lambda>s. s\<lparr>self := (self s)\<lparr>bQuit := True\<rparr>\<rparr>)
           (work_main_step ex_hash_backend ex_cfg ex_nonce_fns 4 (ex_hashing 0))
   \<and> double_work_step ex_hash_backend ex_cfg ex_nonce_fns 4
         ((ex_double_hashing 0)\<lparr>self := (self (ex_double_hashing 0))\<lparr>bQuit := True\<rparr>\<rparr>)
       = map_sum id (\<lambda>s. s\<lparr>self := (self s)\<lparr>bQuit := True\<rparr>\<rparr>)
           (double_work_step ex_hash_backend ex_cfg ex_nonce_fns 4 (ex_double_hashing 0))"
    using quit_checked_at_outer_loop_only [OF ju, where st = "ex_hashing 0" and bk = ex_hash_backend
        and cfg = ex_cfg and nf = ex_nonce_fns and dst = "ex_double_hashing 0" and t = 4
        and q = True]
    by (simp add: ex_hashing_simps ex_double_hashing_simps)
  have outer: "(\<exists>st'. work_main_step ex_hash_backend ex_cfg ex_nonce_fns 4 ?q = Inr st' \<and> pc st' = AtExit)
   \<and> (\<exists>dst'. double_work_step ex_hash_backend ex_cfg ex_nonce_fns 4 ?dq = Inr dst' \<and> pc dst' = AtExit)"
    using quit_checked_at_outer_loop_only [OF ju, where st = ?q and bk = ex_hash_backend
        and cfg = ex_cfg and nf = ex_nonce_fns and dst = ?dq and t = 4]
    by simp
  from runs outer show ?thesis by blast
qed

section \<open>The dual-hash worker: nonces of the lanes\<close>

lemma length_le_bytes32: "length (le_bytes32 v) = 4"
  by (simp add: le_bytes32_def)

text \<open>
  The nonce loop leaves a load from any place four bytes away from all its pointers as it
  was, and what it stores through the pointer of lane \<open>i\<close> is the \<open>i\<close>-th incremented value of
  the cursor.
\<close>

lemma write_nonces_frame:
  assumes "write_nonces (map Some offs) v blob = Inr (v', blob')"
    and "\<forall>p \<in> set offs. (off + 4 \<le> p \<or> p + 4 \<le> off) \<and> p + 4 \<le> length blob"
  shows "read_u32 blob' off = read_u32 blob off \<and> length blob' = length blob"
  using assms
proof (induction offs arbitrary: v blob)
  case Nil
  then show ?case by simp
next
  case (Cons p offs)
  let ?b = "store_bytes blob p (le_bytes32 (v + 1))"
  have p: "off + 4 \<le> p \<or> p + 4 \<le> off" "p + 4 \<le> length blob" using Cons.prems by simp_all
  have len: "length ?b = length blob"
    using p by (simp add: store_bytes_length length_le_bytes32)
  have rd: "read_u32 ?b off = read_u32 blob off"
    using p by (intro read_u32_store_other) (auto simp: length_le_bytes32)
  have "write_nonces (map Some offs) (v + 1) ?b = Inr (v', blob')"
    using Cons.prems(1) by simp
  from Cons.IH [OF this] Cons.prems(2) len
  have "read_u32 blob' off = read_u32 ?b off \<and> length blob' = length ?b" by simp
  with rd len show ?case by simp
qed

lemma write_nonces_values:
  assumes "write_nonces (map Some offs) v blob = Inr (v', blob')"
    and "lanes_apart offs" and "\<forall>p \<in> set offs. p + 4 \<le> length blob"
  shows "v' = v + of_nat (length offs)
       \<and> (\<forall>i < length offs. read_u32 blob' (offs ! i) = v + of_nat i + 1)"
  using assms
proof (induction offs arbitrary: v blob)
  case Nil
  then show ?case by simp
next
  case (Cons p offs)
  let ?b = "store_bytes blob p (le_bytes32 (v + 1))"
  have p: "p + 4 \<le> length blob" using Cons.prems by simp
  have len: "length ?b = length blob"
    using p by (simp add: store_bytes_length length_le_bytes32)
  have w: "write_nonces (map Some offs) (v + 1) ?b = Inr (v', blob')"
    using Cons.prems(1) by simp
  have ih: "v' = v + 1 + of_nat (length offs)
       \<and> (\<forall>i < length offs. read_u32 blob' (offs ! i) = v + 1 + of_nat i + 1)"
    using Cons.IH [OF w] Cons.prems(2,3) len by simp
  have "read_u32 blob' p = read_u32 ?b p"
    using write_nonces_frame [OF w, of p] Cons.prems(2,3) len by auto
  also have "\<dots> = v + 1"
    using p by (simp add: read_u32_store_same)
  finally have first: "read_u32 blob' p = v + 1" .
  show ?case
  proof (intro conjI allI impI)
    show "v' = v + of_nat (length (p # offs))" using ih by (simp add: add.assoc add.commute)
  next
    fix i assume "i < length (p # offs)"
    then show "read_u32 blob' ((p # offs) ! i) = v + of_nat i + 1"
      using ih first by (cases i) (simp_all add: add.assoc add.commute add.left_commute)
  qed
qed

lemma lane_nonce_arith:
  "i < L \<Longrightarrow> (v :: u32) + of_nat L - of_nat (L - i - 1) = v + of_nat i + 1"
proof -
  assume "i < L"
  then have "L = (L - i - 1) + (i + 1)" by simp
  then have "(of_nat L :: u32) = of_nat (L - i - 1) + of_nat (i + 1)"
    by (metis of_nat_add)
  then show ?thesis by simp
qed

text \<open>The loop of lines 522 to 525 pushes one event for each lane whose digest qualifies.\<close>

lemma concat_map_if:
  "concat (map (\<lambda>i. if P i then [f i] else []) xs) = map f (filter P xs)"
  by (induction xs) simp_all

lemma emit_results_eq:
  "emit_results w v out =
     map (\<lambda>i. \<lparr>ev_result = \<lparr>jr_sJobID = sJobID w, jr_iNonce = v - of_nat (hashes - i - 1),
                                jr_bResult = take 32 (drop (32 * i) out)\<rparr>,
                 ev_iPoolId = iPoolId w\<rparr>)
       (filter (\<lambda>i. read_u64 out (32 * i + 24) < iTarget w) [0..<hashes])"
  unfolding emit_results_def lane_result_def by (rule concat_map_if)

text \<open>
  Claim C5. Take a round of the dual-hash loop that starts with the cursor \<open>iNonce\<close> and
  ends without a fault, with every lane's pointer set, the pointers four bytes apart and
  inside the buffer. The cursor ends at \<open>v = iNonce + hashes\<close>, the nonce written into the
  last lane, and the batched hash is computed over the buffer the nonces were written to.
  The events the round appends to the executor's queue are, in lane order, one for each
  lane \<open>i\<close> whose digest is below the target: it carries the job's identifier and pool,
  the 32 bytes of lane \<open>i\<close>'s digest, and the nonce \<open>v - (hashes - i - 1)\<close>. That nonce is
  the value found in lane \<open>i\<close>'s nonce field of the hashed buffer, \<open>iNonce + i + 1\<close>, so the
  same events are described with the nonce read back from the lane.
\<close>

theorem double_lane_nonce:
  assumes "double_inner_body bk iStamp st = Inr st'"
    and "take hashes (piNonce st) = map Some offs" and "length offs = hashes"
    and "lanes_apart offs" and "\<forall>p \<in> set offs. p + 4 \<le> length (bDoubleWorkBlob st)"
  shows "\<exists>cs. those (ctxs st) = Some cs
      \<and> iNonce st' = iNonce st + of_nat hashes
      \<and> bDoubleHashOut st' = store_bytes (bDoubleHashOut st) 0
          (cryptonight_double_hash_ctx bk (bDoubleWorkBlob st')
             (unat (iWorkSize (oWork (self st)))) cs)
      \<and> pushed st' = pushed st @
          map (\<lambda>i. \<lparr>ev_result =
                       \<lparr>jr_sJobID = sJobID (oWork (self st)),
                        jr_iNonce = iNonce st' - of_nat (hashes - i - 1),
                        jr_bResult = take 32 (drop (32 * i) (bDoubleHashOut st'))\<rparr>,
                     ev_iPoolId = iPoolId (oWork (self st))\<rparr>)
            (filter (\<lambda>i. read_u64 (bDoubleHashOut st') (32 * i + 24) < iTarget (oWork (self st)))
               [0..<hashes])
      \<and> pushed st' = pushed st @
          map (\<lambda>i. \<lparr>ev_result =
                       \<lparr>jr_sJobID = sJobID (oWork (self st)),
                        jr_iNonce = read_u32 (bDoubleWorkBlob st') (offs ! i),
                        jr_bResult = take 32 (drop (32 * i) (bDoubleHashOut st'))\<rparr>,
                     ev_iPoolId = iPoolId (oWork (self st))\<rparr>)
            (filter (\<lambda>i. read_u64 (bDoubleHashOut st') (32 * i + 24) < iTarget (oWork (self st)))
               [0..<hashes])
      \<and> (\<forall>i < hashes.
           iNonce st' - of_nat (hashes - i - 1) = read_u32 (bDoubleWorkBlob st') (offs ! i)
           \<and> iNonce st' - of_nat (hashes - i - 1) = iNonce st + of_nat i + 1)"
proof -
  from assms(1) obtain v blob cs where
    w: "write_nonces (take hashes (piNonce st)) (iNonce st) (bDoubleWorkBlob st) = Inr (v, blob)"
    and cs: "those (ctxs st) = Some cs"
    and st': "st' = st\<lparr>self := store_stats (iCount st) iStamp (self st),
                 iCount := iCount st + of_nat hashes, iNonce := v,
                 bDoubleWorkBlob := blob,
                 bDoubleHashOut := store_bytes (bDoubleHashOut st) 0
                    (cryptonight_double_hash_ctx bk blob
                       (unat (iWorkSize (oWork (self st)))) cs),
                 pushed := pushed st @ emit_results (oWork (self st)) v
                    (store_bytes (bDoubleHashOut st) 0
                      (cryptonight_double_hash_ctx bk blob
                         (unat (iWorkSize (oWork (self st)))) cs))\<rparr>"
    by (auto simp: double_inner_body_def Let_def store_stats_fields
        split: sum.splits option.splits prod.splits)
  let ?out = "store_bytes (bDoubleHashOut st) 0
                (cryptonight_double_hash_ctx bk blob (unat (iWorkSize (oWork (self st)))) cs)"
  let ?w = "oWork (self st)"
  let ?lanes = "filter (\<lambda>i. read_u64 ?out (32 * i + 24) < iTarget ?w) [0..<hashes]"
  from w assms(2) have w': "write_nonces (map Some offs) (iNonce st) (bDoubleWorkBlob st) = Inr (v, blob)"
    by simp
  from write_nonces_values [OF w' assms(4,5)] assms(3)
  have v: "v = iNonce st + of_nat hashes"
    and rd: "\<And>i. i < hashes \<Longrightarrow> read_u32 blob (offs ! i) = iNonce st + of_nat i + 1"
    by simp_all
  have ar: "\<And>i. i < hashes \<Longrightarrow> v - of_nat (hashes - i - 1) = iNonce st + of_nat i + 1"
    unfolding v by (rule lane_nonce_arith)
  have fields: "iNonce st' = v" "bDoubleWorkBlob st' = blob" "bDoubleHashOut st' = ?out"
    "pushed st' = pushed st @ emit_results ?w v ?out"
    by (simp_all add: st')
  have by_formula: "emit_results ?w v ?out =
          map (\<lambda>i. \<lparr>ev_result = \<lparr>jr_sJobID = sJobID ?w, jr_iNonce = v - of_nat (hashes - i - 1),
                                     jr_bResult = take 32 (drop (32 * i) ?out)\<rparr>,
                     ev_iPoolId = iPoolId ?w\<rparr>) ?lanes"
    by (rule emit_results_eq)
  have by_lane: "map (\<lambda>i. \<lparr>ev_result = \<lparr>jr_sJobID = sJobID ?w, jr_iNonce = v - of_nat (hashes - i - 1),
                                     jr_bResult = take 32 (drop (32 * i) ?out)\<rparr>,
                     ev_iPoolId = iPoolId ?w\<rparr>) ?lanes
        = map (\<lambda>i. \<lparr>ev_result = \<lparr>jr_sJobID = sJobID ?w, jr_iNonce = read_u32 blob (offs ! i),
                                     jr_bResult = take 32 (drop (32 * i) ?out)\<rparr>,
                     ev_iPoolId = iPoolId ?w\<rparr>) ?lanes"
  proof (rule map_cong [OF refl])
    fix i assume "i \<in> set ?lanes"
    then have "i < hashes" by simp
    then have "v - of_nat (hashes - i - 1) = read_u32 blob (offs ! i)"
      using ar rd by simp
    then show "\<lparr>ev_result = \<lparr>jr_sJobID = sJobID ?w, jr_iNonce = v - of_nat (hashes - i - 1),
                                jr_bResult = take 32 (drop (32 * i) ?out)\<rparr>,
                 ev_iPoolId = iPoolId ?w\<rparr>
             = \<lparr>ev_result = \<lparr>jr_sJobID = sJobID ?w, jr_iNonce = read_u32 blob (offs ! i),
                                jr_bResult = take 32 (drop (32 * i) ?out)\<rparr>,
                 ev_iPoolId = iPoolId ?w\<rparr>"
      by simp
  qed
  show ?thesis
  proof (intro exI [of _ cs] conjI allI impI)
    show "those (ctxs st) = Some cs" by (rule cs)
    show "iNonce st' = iNonce st + of_nat hashes" using fields v by simp
    show "bDoubleHashOut st' = store_bytes (bDoubleHashOut st) 0
          (cryptonight_double_hash_ctx bk (bDoubleWorkBlob st')
             (unat (iWorkSize (oWork (self st)))) cs)"
      using fields by simp
    show "pushed st' = pushed st @
          map (\<lambda>i. \<lparr>ev_result =
                       \<lparr>jr_sJobID = sJobID (oWork (self st)),
                        jr_iNonce = iNonce st' - of_nat (hashes - i - 1),
                        jr_bResult = take 32 (drop (32 * i) (bDoubleHashOut st'))\<rparr>,
                     ev_iPoolId = iPoolId (oWork (self st))\<rparr>)
            (filter (\<lambda>i. read_u64 (bDoubleHashOut st') (32 * i + 24) < iTarget (oWork (self st)))
               [0..<hashes])"
      unfolding fields by_formula ..
    show "pushed st' = pushed st @
          map (\<lambda>i. \<lparr>ev_result =
                       \<lparr>jr_sJobID = sJobID (oWork (self st)),
                        jr_iNonce = read_u32 (bDoubleWorkBlob st') (offs ! i),
                        jr_bResult = take 32 (drop (32 * i) (bDoubleHashOut st'))\<rparr>,
                     ev_iPoolId = iPoolId (oWork (self st))\<rparr>)
            (filter (\<lambda>i. read_u64 (bDoubleHashOut st') (32 * i + 24) < iTarget (oWork (self st)))
               [0..<hashes])"
      unfolding fields by_formula by_lane ..
  next
    fix i assume i: "i < hashes"
    show "iNonce st' - of_nat (hashes - i - 1) = read_u32 (bDoubleWorkBlob st') (offs ! i)"
      using fields ar [OF i] rd [OF i] by simp
    show "iNonce st' - of_nat (hashes - i - 1) = iNonce st + of_nat i + 1"
      using fields ar [OF i] by simp
  qed
qed

text \<open>
  The theorem at the example thread on the job with target 1 and the backend of zero
  digests: cursor 5, lanes at 39 and 115. The round pushes two events, lane 0's with
  nonce 6 and lane 1's with nonce 7, the values found in the two lanes.
\<close>

lemma ex_emitting_round:
  "\<exists>st'. double_inner_body ex_zero_backend 9 ex_double_emitting = Inr st'"
proof -
  have "\<forall>p \<in> set (take hashes (piNonce ex_double_emitting)). p \<noteq> None"
    "those (ctxs ex_double_emitting) = Some [ex_ctx 0, ex_ctx 1]"
    by (simp_all add: ex_double_emitting_def ex_double_hashing_def ex_double_work_def hashes_def)
  from double_inner_body_Inr [OF this] show ?thesis by metis
qed

theorem double_lane_nonce_witness:
  "\<exists>st'. double_inner_body ex_zero_backend 9 ex_double_emitting = Inr st'
     \<and> iNonce st' = 7
     \<and> read_u32 (bDoubleWorkBlob st') 39 = 6 \<and> read_u32 (bDoubleWorkBlob st') 115 = 7
     \<and> pushed st' =
         [\<lparr>ev_result = \<lparr>jr_sJobID = ''job'', jr_iNonce = 6, jr_bResult = replicate 32 0\<rparr>,
           ev_iPoolId = 0\<rparr>,
          \<lparr>ev_result = \<lparr>jr_sJobID = ''job'', jr_iNonce = 7, jr_bResult = replicate 32 0\<rparr>,
           ev_iPoolId = 0\<rparr>]"
proof -
  from ex_emitting_round obtain st' where
    r: "double_inner_body ex_zero_backend 9 ex_double_emitting = Inr st'" by blast
  have h: "take hashes (piNonce ex_double_emitting) = map Some [39, 115]"
    "length [39, 115 :: nat] = hashes" "lanes_apart [39, 115]"
    "\<forall>p \<in> set [39, 115 :: nat]. p + 4 \<le> length (bDoubleWorkBlob ex_double_emitting)"
    by (simp_all add: ex_double_emitting_def ex_double_hashing_def ex_double_work_def hashes_def)
  have w: "oWork (self ex_double_emitting) = (ex_work False)\<lparr>iTarget := 1\<rparr>"
    "iNonce ex_double_emitting = 5" "pushed ex_double_emitting = []"
    "bDoubleHashOut ex_double_emitting = replicate 64 0xcc"
    by (simp_all add: ex_double_emitting_def ex_double_hashing_def ex_double_work_def)
  have out: "store_bytes (replicate 64 0xcc) 0 (cryptonight_double_hash_ctx ex_zero_backend b n cs)
               = replicate 64 0" for b n cs
    by (simp add: ex_zero_backend_def ex_backend_def store_bytes_def replicate_add [symmetric])
  have z: "read_u64 (replicate 64 0) 24 = 0" "read_u64 (replicate 64 0) 56 = 0"
    by code_simp+
  from double_lane_nonce [OF r h] obtain cs where
    n: "iNonce st' = 5 + of_nat hashes"
    and o: "bDoubleHashOut st' = replicate 64 0"
    and p: "pushed st' =
          map (\<lambda>i. \<lparr>ev_result =
                       \<lparr>jr_sJobID = sJobID ((ex_work False)\<lparr>iTarget := 1\<rparr>),
                        jr_iNonce = iNonce st' - of_nat (hashes - i - 1),
                        jr_bResult = take 32 (drop (32 * i) (bDoubleHashOut st'))\<rparr>,
                     ev_iPoolId = iPoolId ((ex_work False)\<lparr>iTarget := 1\<rparr>)\<rparr>)
            (filter (\<lambda>i. read_u64 (bDoubleHashOut st') (32 * i + 24)
                            < iTarget ((ex_work False)\<lparr>iTarget := 1\<rparr>))
               [0..<hashes])"
    and l: "\<forall>i < hashes.
           iNonce st' - of_nat (hashes - i - 1) = read_u32 (bDoubleWorkBlob st') ([39, 115] ! i)"
    unfolding w by (auto simp: out)
  have n7: "iNonce st' = 7" using n by (simp add: hashes_def)
  have rd: "read_u32 (bDoubleWorkBlob st') 39 = 6" "read_u32 (bDoubleWorkBlob st') 115 = 7"
    using l n7 by (simp_all add: hashes_def numeral_2_eq_2 All_less_Suc)
  have ps: "pushed st' =
         [\<lparr>ev_result = \<lparr>jr_sJobID = ''job'', jr_iNonce = 6, jr_bResult = replicate 32 0\<rparr>,
           ev_iPoolId = 0\<rparr>,
          \<lparr>ev_result = \<lparr>jr_sJobID = ''job'', jr_iNonce = 7, jr_bResult = replicate 32 0\<rparr>,
           ev_iPoolId = 0\<rparr>]"
    unfolding p o n7 upt_hashes
    by (simp add: z ex_work_def hashes_def)
  from r n7 rd ps show ?thesis by blast
qed

text \<open>
  The copy loops leave the pointers as the theorem asks for them, for a job of at least
  four bytes: lane 0 at 39 and lane 1 at \<open>iWorkSize + 39\<close>.
\<close>

lemma lanes_after_resync:
  assumes "length (piNonce st) = hashes" and "4 \<le> unat (iWorkSize (oWork (self st)))"
  shows "take hashes (piNonce (resync_after_stall st))
           = map Some [39, unat (iWorkSize (oWork (self st))) + 39]"
    and "piNonce st ! 0 = Some 39 \<Longrightarrow>
         take hashes (piNonce (resync_after_job st))
           = map Some [39, unat (iWorkSize (oWork (self st))) + 39]"
    and "lanes_apart [39, unat (iWorkSize (oWork (self st))) + 39]"
proof -
  from assms(1) obtain x y where xy: "piNonce st = [x, y]"
    by (cases "piNonce st"; cases "tl (piNonce st)") (auto simp: hashes_def)
  show "take hashes (piNonce (resync_after_stall st))
           = map Some [39, unat (iWorkSize (oWork (self st))) + 39]"
    by (simp add: resync_after_stall_eq xy lane_off_def hashes_def)
  show "take hashes (piNonce (resync_after_job st))
           = map Some [39, unat (iWorkSize (oWork (self st))) + 39]" if "piNonce st ! 0 = Some 39"
    using that by (simp add: resync_after_job_eq xy lane_off_def hashes_def)
  show "lanes_apart [39, unat (iWorkSize (oWork (self st))) + 39]"
    using assms(2) by simp
qed
section \<open>The dual-hash worker: the first job\<close>

text \<open>
  Claim C6 fails on the code. A dual-hash thread constructed with work that is not stalled
  reaches its hashing loop after the prologue and one pass of the outer loop with the lane
  buffers never copied from the job (still the 0xcc bytes of the stack, while the job's
  bytes are 0x11) and with the pointer of lane 1 still null; its first round then writes
  through the null pointer. A thread constructed with stalled work goes through the copy
  loop of the stall branch first and reaches the hashing loop with both lanes copied and
  both pointers set.
\<close>

theorem double_work_first_job_unsynced:
  "(case double_work_run ex_hash_backend ex_cfg ex_nonce_fns [Tick 1, Tick 2]
          (ex_double_work (ex_work False)) of
      Inl f \<Rightarrow> False
    | Inr st \<Rightarrow> pc st = AtInner \<and> iGlobalJobNo (glob st) = iJobNo (self st)
               \<and> piNonce st = [Some 39, None]
               \<and> bDoubleWorkBlob st = replicate 560 0xcc
               \<and> take 76 (bWorkBlob (oWork (self st))) = replicate 76 0x11)
   \<and> double_work_run ex_hash_backend ex_cfg ex_nonce_fns [Tick 1, Tick 2, Tick 3]
        (ex_double_work (ex_work False)) = Inl NullPointer
   \<and> (case double_work_run ex_hash_backend ex_cfg ex_nonce_fns
            [Tick 1, Tick 2, PublishPoll (ex_work False), Tick 3, Tick 4]
            (ex_double_work (ex_work True)) of
        Inl f \<Rightarrow> False
      | Inr st \<Rightarrow> pc st = AtInner \<and> iGlobalJobNo (glob st) = iJobNo (self st)
                 \<and> piNonce st = [Some 39, Some 115]
                 \<and> take 152 (bDoubleWorkBlob st) = replicate 152 0x11)"
  by code_simp

section \<open>The handoff\<close>

lemma switch_work_Some_eq:
  "switch_work ticks pWork s = Some s' \<Longrightarrow>
   s' = s\<lparr>oGlobalWork := pWork, iConsumeCnt := 0, iGlobalJobNo := iGlobalJobNo s + 1\<rparr>"
proof (induction ticks arbitrary: s)
  case Nil
  then show ?case by (simp add: switch_work_poll_def split: if_splits)
next
  case (Cons k ticks)
  show ?case
  proof (cases "iConsumeCnt s < iThreadCount s")
    case True
    with Cons.prems have "switch_work ticks pWork (s\<lparr>iConsumeCnt := iConsumeCnt s + of_nat k\<rparr>) = Some s'"
      by simp
    from Cons.IH [OF this] show ?thesis by simp
  next
    case False
    with Cons.prems show ?thesis by (simp add: switch_work_poll_def)
  qed
qed

lemma polled_Cons:
  "polled (k # ticks) s 0 = iConsumeCnt s"
  "polled (k # ticks) s (Suc j) = polled ticks (s\<lparr>iConsumeCnt := iConsumeCnt s + of_nat k\<rparr>) j"
  by (simp_all add: polled_def add.assoc)

lemma switch_work_None_iff:
  "switch_work ticks pWork s = None \<longleftrightarrow> (\<forall>j \<le> length ticks. polled ticks s j < iThreadCount s)"
proof (induction ticks arbitrary: s)
  case Nil
  then show ?case by (simp add: switch_work_poll_def polled_def)
next
  case (Cons k ticks)
  let ?s = "s\<lparr>iConsumeCnt := iConsumeCnt s + of_nat k\<rparr>"
  have split: "(\<forall>j \<le> length (k # ticks). polled (k # ticks) s j < iThreadCount s)
     \<longleftrightarrow> iConsumeCnt s < iThreadCount s \<and> (\<forall>j \<le> length ticks. polled ticks ?s j < iThreadCount ?s)"
    (is "?L \<longleftrightarrow> ?R")
  proof
    assume l: ?L
    then have "polled (k # ticks) s 0 < iThreadCount s" by simp
    moreover have "polled ticks ?s j < iThreadCount ?s" if "j \<le> length ticks" for j
      using l that by (auto simp: polled_Cons(2) [symmetric])
    ultimately show ?R by (simp add: polled_Cons)
  next
    assume r: ?R
    show ?L
    proof (intro allI impI)
      fix j assume "j \<le> length (k # ticks)"
      then show "polled (k # ticks) s j < iThreadCount s"
        using r by (cases j) (simp_all add: polled_Cons)
    qed
  qed
  show ?case
  proof (cases "iConsumeCnt s < iThreadCount s")
    case True
    then show ?thesis unfolding split using Cons.IH [of ?s] by simp
  next
    case False
    then show ?thesis unfolding split by (simp add: switch_work_poll_def)
  qed
qed

lemma work_main_step_glob:
  assumes "work_main_step bk cfg nf t st = Inr st'"
  shows "glob st' =
     (if pc st = AtStart then (glob st)\<lparr>iConsumeCnt := iConsumeCnt (glob st) + 1\<rparr>
      else if (pc st = AtStall \<or> pc st = AtInner) \<and> iGlobalJobNo (glob st) \<noteq> iJobNo (self st)
      then fst (consume_work (glob st) (self st))
      else glob st)"
proof (cases "pc st")
  case AtInner
  show ?thesis
  proof (cases "iGlobalJobNo (glob st) = iJobNo (self st)")
    case True
    with assms AtInner have b: "work_inner_body bk (HaveHardwareAes cfg) t st = Inr st'"
      by (simp add: work_main_step_def)
    then obtain c where "ctx st = Some c"
      by (cases "ctx st") (simp_all add: work_inner_body_def Let_def)
    from work_inner_body_Inr [OF this, of bk "HaveHardwareAes cfg" t] b
    have "glob st' = glob st" by (metis Inr_inject)
    with AtInner True show ?thesis by simp
  next
    case False
    with assms AtInner show ?thesis by (auto simp: work_main_step_def split: prod.splits)
  qed
qed (use assms in \<open>auto simp: work_main_step_def Let_def split: prod.splits if_splits\<close>)

lemma double_work_step_glob:
  assumes "double_work_step bk cfg nf t st = Inr st'"
  shows "glob st' =
     (if pc st = AtStart then (glob st)\<lparr>iConsumeCnt := iConsumeCnt (glob st) + 1\<rparr>
      else if (pc st = AtStall \<or> pc st = AtInner) \<and> iGlobalJobNo (glob st) \<noteq> iJobNo (self st)
      then fst (consume_work (glob st) (self st))
      else glob st)"
proof (cases "pc st")
  case AtInner
  show ?thesis
  proof (cases "iGlobalJobNo (glob st) = iJobNo (self st)")
    case True
    with assms AtInner have b: "double_inner_body bk t st = Inr st'"
      by (simp add: double_work_step_def)
    then have "glob st' = glob st"
      by (auto simp: double_inner_body_def Let_def split: sum.splits option.splits prod.splits)
    with AtInner True show ?thesis by simp
  next
    case False
    with assms AtInner show ?thesis
      by (auto simp: double_work_step_def resync_after_job_eq split: prod.splits)
  qed
qed (use assms in \<open>auto simp: double_work_step_def Let_def resync_after_stall_eq
      split: prod.splits if_splits option.splits\<close>)

text \<open>
  Claim C1, as the code has it. \<open>switch_work\<close> is still waiting at the end of \<open>ticks\<close> exactly
  when the consumed count was below the thread count at every evaluation of its loop
  condition; when it returns, the work is installed as the global job, the consumed count
  is zero, the global job number is one higher, and nothing else has changed.
  \<open>consume_work\<close> copies the global work into the thread's \<open>oWork\<close>, adds one to its job
  number (which then equals the global one if it was one behind) and adds one to the
  consumed count. In the thread bodies the shared state changes in two ways only: through
  \<open>consume_work\<close> on leaving the stall loop or the hashing loop, and in the prologue, where
  each thread adds one to the consumed count without consuming anything. \<open>thread_starter\<close>
  sets the job number and the consumed count to zero and sets the thread count. In every
  state that \<open>k\<close> threads and the producer reach from there, the producer leaves its wait
  with the consumed count equal to the thread count, and a worker that consumes ends with
  its job number equal to the global one.
\<close>

theorem handoff_protocol:
  "(switch_work ticks pWork s = None
      \<longleftrightarrow> (\<forall>j \<le> length ticks. polled ticks s j < iThreadCount s))
   \<and> (switch_work ticks pWork s \<noteq> None \<longrightarrow>
        switch_work ticks pWork s
          = Some (s\<lparr>oGlobalWork := pWork, iConsumeCnt := 0, iGlobalJobNo := iGlobalJobNo s + 1\<rparr>))
   \<and> oWork (snd (consume_work s m)) = oGlobalWork s
   \<and> iJobNo (snd (consume_work s m)) = iJobNo m + 1
   \<and> (iJobNo m + 1 = iGlobalJobNo s \<longrightarrow>
        iJobNo (snd (consume_work s m)) = iGlobalJobNo (fst (consume_work s m)))
   \<and> fst (consume_work s m) = s\<lparr>iConsumeCnt := iConsumeCnt s + 1\<rparr>
   \<and> (work_main_step bk cfg nf t st = Inr st' \<longrightarrow>
        glob st' =
          (if pc st = AtStart then (glob st)\<lparr>iConsumeCnt := iConsumeCnt (glob st) + 1\<rparr>
           else if (pc st = AtStall \<or> pc st = AtInner) \<and> iGlobalJobNo (glob st) \<noteq> iJobNo (self st)
           then fst (consume_work (glob st) (self st))
           else glob st))
   \<and> (double_work_step bk cfg nf t dst = Inr dst' \<longrightarrow>
        glob dst' =
          (if pc dst = AtStart then (glob dst)\<lparr>iConsumeCnt := iConsumeCnt (glob dst) + 1\<rparr>
           else if (pc dst = AtStall \<or> pc dst = AtInner) \<and> iGlobalJobNo (glob dst) \<noteq> iJobNo (self dst)
           then fst (consume_work (glob dst) (self dst))
           else glob dst))
   \<and> thread_starter n s = s\<lparr>iGlobalJobNo := 0, iConsumeCnt := 0, iThreadCount := n\<rparr>
   \<and> (sys_reach k (g, ths) \<and> k < 2 ^ 64 \<and> switch_work_poll pWork g = Some g' \<longrightarrow>
        iConsumeCnt g = iThreadCount g)
   \<and> (sys_reach k (g, ths) \<and> k < 2 ^ 64 \<and> i < length ths \<and> ths ! i = (True, mi)
        \<and> iGlobalJobNo g \<noteq> iJobNo mi \<longrightarrow>
        iJobNo (snd (consume_work g mi)) = iGlobalJobNo (fst (consume_work g mi)))"
proof (intro conjI impI)
  assume a: "sys_reach k (g, ths) \<and> k < 2 ^ 64 \<and> switch_work_poll pWork g = Some g'"
  then have "sys_inv k (g, ths)" using sys_reach_inv by blast
  with a show "iConsumeCnt g = iThreadCount g" using sys_inv_publish_count(1) by blast
next
  assume a: "sys_reach k (g, ths) \<and> k < 2 ^ 64 \<and> i < length ths \<and> ths ! i = (True, mi)
        \<and> iGlobalJobNo g \<noteq> iJobNo mi"
  then have "sys_inv k (g, ths)" using sys_reach_inv by blast
  with a show "iJobNo (snd (consume_work g mi)) = iGlobalJobNo (fst (consume_work g mi))"
    using sys_inv_consume(2) by blast
next
  show "switch_work ticks pWork s = None
      \<longleftrightarrow> (\<forall>j \<le> length ticks. polled ticks s j < iThreadCount s)"
    by (rule switch_work_None_iff)
next
  assume "switch_work ticks pWork s \<noteq> None"
  then obtain s' where "switch_work ticks pWork s = Some s'" by auto
  then show "switch_work ticks pWork s
          = Some (s\<lparr>oGlobalWork := pWork, iConsumeCnt := 0, iGlobalJobNo := iGlobalJobNo s + 1\<rparr>)"
    using switch_work_Some_eq by simp
next
  assume "work_main_step bk cfg nf t st = Inr st'"
  then show "glob st' =
          (if pc st = AtStart then (glob st)\<lparr>iConsumeCnt := iConsumeCnt (glob st) + 1\<rparr>
           else if (pc st = AtStall \<or> pc st = AtInner) \<and> iGlobalJobNo (glob st) \<noteq> iJobNo (self st)
           then fst (consume_work (glob st) (self st))
           else glob st)"
    by (rule work_main_step_glob)
next
  assume "double_work_step bk cfg nf t dst = Inr dst'"
  then show "glob dst' =
          (if pc dst = AtStart then (glob dst)\<lparr>iConsumeCnt := iConsumeCnt (glob dst) + 1\<rparr>
           else if (pc dst = AtStall \<or> pc dst = AtInner) \<and> iGlobalJobNo (glob dst) \<noteq> iJobNo (self dst)
           then fst (consume_work (glob dst) (self dst))
           else glob dst)"
    by (rule double_work_step_glob)
qed (simp_all add: consume_work_def thread_starter_def)

text \<open>
  The theorem for one worker that has started neither before nor during the first sleep
  and starts during the second: the producer is still waiting after two idle sleeps and
  installs the job after the second one otherwise; the worker's prologue is the step that
  brings the count to one. In the system of this one worker, the producer leaves its wait
  at count one of one, and the worker's consume brings its job number to one.
\<close>

theorem handoff_protocol_witness:
  "switch_work [0, 0] (ex_work False) (ex_shared (ex_work True)) = None
   \<and> switch_work [0, 1] (ex_work False) (ex_shared (ex_work True))
       = Some ((ex_shared (ex_work True))\<lparr>oGlobalWork := ex_work False, iConsumeCnt := 0,
                                          iGlobalJobNo := 1\<rparr>)
   \<and> (\<exists>st'. work_main_step ex_hash_backend ex_cfg ex_nonce_fns 0 (ex_work_main (ex_work True))
               = Inr st'
           \<and> glob st' = (ex_shared (ex_work True))\<lparr>iConsumeCnt := 1\<rparr>)
   \<and> (\<exists>dst'. double_work_step ex_hash_backend ex_cfg ex_nonce_fns 0
                (ex_double_work (ex_work True)) = Inr dst'
           \<and> glob dst' = (ex_shared (ex_work True))\<lparr>iConsumeCnt := 1\<rparr>)
   \<and> sys_reach 1 ex_sys_started
   \<and> switch_work_poll (ex_work False) (fst ex_sys_started) = Some (fst ex_sys_published)
   \<and> iConsumeCnt (fst ex_sys_started) = iThreadCount (fst ex_sys_started)
   \<and> sys_reach 1 ex_sys_published
   \<and> iJobNo (snd (consume_work (fst ex_sys_published) (minethd_ctor (ex_work True) 0 False)))
       = iGlobalJobNo (fst (consume_work (fst ex_sys_published) (minethd_ctor (ex_work True) 0 False)))"
proof -
  let ?m = "minethd_ctor (ex_work True) 0 False"
  have r0: "sys_reach 1 ex_sys_init"
    unfolding ex_sys_init_def by (rule sys_reach.init)
  have "sys_step ex_sys_init ex_sys_started"
    using sys_step.prologue [of 0 "[(False, ?m)]" ?m "thread_starter 1 (ex_shared (ex_work True))"]
    by (simp add: ex_sys_init_def ex_sys_started_def sys_init_def ex_shared_def thread_starter_def)
  with r0 have r1: "sys_reach 1 ex_sys_started" by (rule sys_reach.step)
  have poll: "switch_work_poll (ex_work False) (fst ex_sys_started) = Some (fst ex_sys_published)"
    by (simp add: switch_work_poll_def ex_sys_started_def ex_sys_published_def ex_shared_def
        thread_starter_def)
  have "sys_step ex_sys_started ex_sys_published"
    using sys_step.publish [OF poll, of "snd ex_sys_started"]
    by (simp add: ex_sys_started_def ex_sys_published_def)
  with r1 have r2: "sys_reach 1 ex_sys_published" by (rule sys_reach.step)
  have one: "(1 :: nat) < 2 ^ 64" by simp
  have r1': "sys_reach 1 (fst ex_sys_started, snd ex_sys_started)"
    and r2': "sys_reach 1 (fst ex_sys_published, snd ex_sys_published)"
    using r1 r2 by simp_all
  have 4: "iConsumeCnt (fst ex_sys_started) = iThreadCount (fst ex_sys_started)"
    using handoff_protocol [where k = 1 and g = "fst ex_sys_started" and ths = "snd ex_sys_started"
        and pWork = "ex_work False" and g' = "fst ex_sys_published"] r1' poll one
    by blast
  have e: "0 < length (snd ex_sys_published)" "snd ex_sys_published ! 0 = (True, ?m)"
    "iGlobalJobNo (fst ex_sys_published) \<noteq> iJobNo ?m"
    by (simp_all add: ex_sys_published_def minethd_ctor_def)
  have 5: "iJobNo (snd (consume_work (fst ex_sys_published) ?m))
       = iGlobalJobNo (fst (consume_work (fst ex_sys_published) ?m))"
    using handoff_protocol [where k = 1 and g = "fst ex_sys_published" and ths = "snd ex_sys_published"
        and i = 0 and mi = ?m] r2' one e
    by blast
  let ?s = "ex_shared (ex_work True)"
  have s: "iConsumeCnt ?s = 0" "iThreadCount ?s = 1" "iGlobalJobNo ?s = 0"
    by (simp_all add: ex_shared_def thread_starter_def)
  have z0: "sum_list (take j [0, 0 :: nat]) = 0" for j
  proof -
    have "\<forall>n \<in> set (take j [0, 0 :: nat]). n = 0" by (auto dest: in_set_takeD)
    then show ?thesis by (simp only: sum_list_eq_0_iff)
  qed
  have z: "(of_nat (sum_list (take j [0, 0 :: nat])) :: u64) = 0" for j
    unfolding z0 by simp
  have idle: "\<forall>j \<le> length [0, 0 :: nat]. polled [0, 0] ?s j < iThreadCount ?s"
    by (simp add: polled_def s z)
  have busy: "\<not> (\<forall>j \<le> length [0, 1 :: nat]. polled [0, 1] ?s j < iThreadCount ?s)"
  proof
    assume "\<forall>j \<le> length [0, 1 :: nat]. polled [0, 1] ?s j < iThreadCount ?s"
    then have "polled [0, 1] ?s 2 < iThreadCount ?s" by simp
    then show False by (simp add: polled_def s)
  qed
  have start: "pc (ex_work_main (ex_work True)) = AtStart"
    "glob (ex_work_main (ex_work True)) = ?s"
    by (simp_all add: ex_work_main_def)
  obtain c w where "minethd_alloc_ctx ex_hash_backend (GetSlowMemSetting ex_cfg)
                      (env (ex_work_main (ex_work True))) = (c, w)"
    by fastforce
  then obtain st' where st': "work_main_step ex_hash_backend ex_cfg ex_nonce_fns 0
                           (ex_work_main (ex_work True)) = Inr st'"
    by (simp add: work_main_step_def start)
  note h = handoff_protocol [where s = ?s and pWork = "ex_work False" and bk = ex_hash_backend
      and cfg = ex_cfg and nf = ex_nonce_fns and t = 0 and st = "ex_work_main (ex_work True)"
      and st' = st']
  have 1: "switch_work [0, 0] (ex_work False) ?s = None"
    using h [where ticks = "[0, 0]"] idle by blast
  have "switch_work [0, 1] (ex_work False) ?s \<noteq> None"
    using h [where ticks = "[0, 1]"] busy by blast
  then have 2: "switch_work [0, 1] (ex_work False) ?s
       = Some (?s\<lparr>oGlobalWork := ex_work False, iConsumeCnt := 0, iGlobalJobNo := 1\<rparr>)"
    using h [where ticks = "[0, 1]"] by (simp add: s)
  have 3: "glob st' = ?s\<lparr>iConsumeCnt := 1\<rparr>"
    using h [where ticks = "[]"] st' by (simp add: start s)
  have dstart: "pc (ex_double_work (ex_work True)) = AtStart"
    "glob (ex_double_work (ex_work True)) = ?s"
    by (simp_all add: ex_double_work_def)
  obtain cs w' where "alloc_ctxs ex_hash_backend (GetSlowMemSetting ex_cfg) hashes
                        (env (ex_double_work (ex_work True))) = (cs, w')"
    by fastforce
  then obtain dst' where dst': "double_work_step ex_hash_backend ex_cfg ex_nonce_fns 0
                                  (ex_double_work (ex_work True)) = Inr dst'"
    by (simp add: double_work_step_def dstart)
  have 6: "glob dst' = ?s\<lparr>iConsumeCnt := 1\<rparr>"
    using handoff_protocol [where bk = ex_hash_backend and cfg = ex_cfg and nf = ex_nonce_fns
        and t = 0 and dst = "ex_double_work (ex_work True)" and dst' = dst'] dst'
    by (simp add: dstart s)
  from 1 2 3 st' r1 poll 4 r2 5 6 dst' show ?thesis by blast
qed

text \<open>
  The claim as the specification words it fails in its last part: the prologue of a
  worker thread, which is neither \<open>switch_work\<close> nor \<open>consume_work\<close>, changes the consumed
  count (and leaves the thread's job number and work alone), and \<open>thread_starter\<close> resets
  the job number and the count and sets the thread count.
\<close>

theorem handoff_protocol_counterexample:
  "(case work_main_step ex_hash_backend ex_cfg ex_nonce_fns 0 (ex_work_main (ex_work True)) of
      Inl f \<Rightarrow> False
    | Inr st' \<Rightarrow> pc (ex_work_main (ex_work True)) = AtStart
                \<and> iConsumeCnt (glob (ex_work_main (ex_work True))) = 0
                \<and> iConsumeCnt (glob st') = 1
                \<and> iJobNo (self st') = iJobNo (self (ex_work_main (ex_work True)))
                \<and> oWork (self st') = oWork (self (ex_work_main (ex_work True))))
   \<and> thread_starter 4 \<lparr>iGlobalJobNo = 9, iConsumeCnt = 3, oGlobalWork = ex_work True,
                        iThreadCount = 2\<rparr>
       = \<lparr>iGlobalJobNo = 0, iConsumeCnt = 0, oGlobalWork = ex_work True, iThreadCount = 4\<rparr>"
  by code_simp


end
